theory Spec2Isabelle
  imports Complex_Main "HOL-Library.Multiset"
begin

section \<open>Values\<close>

text \<open>
  The cumulative column, the weights, the uniform draws and the observations of
  \<^verbatim>\<open>clock.py\<close> are float64 numbers. The model keeps the four kinds of value that
  float64 arithmetic distinguishes (a finite number, the two infinities and NaN) and
  computes exactly on the finite ones: rounding and overflow to an infinity are left
  out. Division by zero, which numpy and pandas answer with an infinity or with NaN
  instead of raising, is kept. The model has one zero, \<open>Fin 0\<close>, which stands for the
  float \<open>+0.0\<close>; the float \<open>-0.0\<close>, which differs from it only as a divisor (numpy's
  \<open>r / -0.0\<close> is the infinity of the opposite sign), is not a value of the model.
\<close>

datatype float64 = Fin rat | PInf | NInf | NaN

fun is_fin :: "float64 \<Rightarrow> bool" where
  "is_fin (Fin _) = True"
| "is_fin _ = False"

fun fadd :: "float64 \<Rightarrow> float64 \<Rightarrow> float64" where
  "fadd (Fin a) (Fin b) = Fin (a + b)"
| "fadd NaN _ = NaN"
| "fadd _ NaN = NaN"
| "fadd PInf NInf = NaN"
| "fadd NInf PInf = NaN"
| "fadd PInf _ = PInf"
| "fadd _ PInf = PInf"
| "fadd NInf _ = NInf"
| "fadd _ NInf = NInf"

fun fneg :: "float64 \<Rightarrow> float64" where
  "fneg (Fin a) = Fin (- a)"
| "fneg PInf = NInf"
| "fneg NInf = PInf"
| "fneg NaN = NaN"

definition fsub :: "float64 \<Rightarrow> float64 \<Rightarrow> float64" where
  "fsub a b = fadd a (fneg b)"

text \<open>True division of numpy: a finite number over the zero \<open>+0.0\<close> is an infinity of
  the sign of the numerator, zero over zero is NaN; nothing is raised.\<close>

fun fdiv :: "float64 \<Rightarrow> float64 \<Rightarrow> float64" where
  "fdiv (Fin a) (Fin b) =
     (if b \<noteq> 0 then Fin (a / b)
      else if a = 0 then NaN
      else if 0 < a then PInf else NInf)"
| "fdiv NaN _ = NaN"
| "fdiv _ NaN = NaN"
| "fdiv (Fin a) _ = Fin 0"
| "fdiv PInf (Fin b) = (if 0 \<le> b then PInf else NInf)"
| "fdiv NInf (Fin b) = (if 0 \<le> b then NInf else PInf)"
| "fdiv _ _ = NaN"

text \<open>The order numpy sorts and searches float64 by: the usual one, with NaN after
  every other value (\<^verbatim>\<open>a < b || (b != b && a == a)\<close>).\<close>

fun np_less :: "float64 \<Rightarrow> float64 \<Rightarrow> bool" where
  "np_less NaN _ = False"
| "np_less _ NaN = True"
| "np_less (Fin a) (Fin b) = (a < b)"
| "np_less _ NInf = False"
| "np_less NInf _ = True"
| "np_less PInf _ = False"
| "np_less _ PInf = True"

definition np_le :: "float64 \<Rightarrow> float64 \<Rightarrow> bool" where
  "np_le a b = (\<not> np_less b a)"

datatype error =
  IndexError | ZeroDivisionError | ValueError | OverflowError | OutOfBoundsDatetime

section \<open>The cumulative table of a CyclicTimerGenerator\<close>

text \<open>
  \<^verbatim>\<open>self.profile\<close> is a DataFrame: one row per clock tick of the cycle, labelled by
  an instant (the index), with the columns \<^verbatim>\<open>cdf\<close> and \<^verbatim>\<open>timeframe\<close>. Instants
  are integers (nanoseconds since the epoch, unbounded in the model).
\<close>

record row =
  idx :: int
  cdf :: float64
  timeframe :: nat

record CyclicTimerGenerator =
  profile :: "row list"

definition cdf_col :: "CyclicTimerGenerator \<Rightarrow> float64 list" where
  "cdf_col self = map cdf (profile self)"

definition timeframe_col :: "CyclicTimerGenerator \<Rightarrow> nat list" where
  "timeframe_col self = map timeframe (profile self)"

definition index_col :: "CyclicTimerGenerator \<Rightarrow> int list" where
  "index_col self = map idx (profile self)"

text \<open>
  \<^verbatim>\<open>
  def increment(self):
      self.profile["cdf"] -= self.profile["cdf"].iloc[0]
      self.profile = pd.concat([self.profile.iloc[1:], self.profile.iloc[:1]])
      self.profile.loc[self.profile.index[-1], "cdf"] = 1
  \<close>
  \<^verbatim>\<open>iloc[0]\<close> raises IndexError on a table without rows. The last line assigns by
  label: every row that carries the label of the last row gets the value 1.
\<close>

definition set_cdf_at :: "int \<Rightarrow> float64 \<Rightarrow> row list \<Rightarrow> row list" where
  "set_cdf_at lbl v rs = map (\<lambda>r. if idx r = lbl then r\<lparr>cdf := v\<rparr> else r) rs"

definition increment :: "CyclicTimerGenerator \<Rightarrow> error + CyclicTimerGenerator" where
  "increment self =
     (case profile self of
        [] \<Rightarrow> Inl IndexError
      | r0 # _ \<Rightarrow>
          let rebased = map (\<lambda>r. r\<lparr>cdf := fsub (cdf r) (cdf r0)\<rparr>) (profile self);
              rotated = drop 1 rebased @ take 1 rebased
          in Inr (self\<lparr>profile := set_cdf_at (idx (last rotated)) (Fin 1) rotated\<rparr>))"

section \<open>Sampling waiting times\<close>

text \<open>
  \<^verbatim>\<open>Series.searchsorted(p)\<close> is numpy's \<^verbatim>\<open>searchsorted(a, v, side='left')\<close>,
  which numpy documents for a column \<open>a\<close> sorted in ascending order: for each key the
  index \<open>i\<close> with \<open>a[i-1] < key <= a[i]\<close>, found by bisection. (numpy starts the
  bisection of a key from the result of the key before it; on a sorted column that is
  the index the bisection of the whole column finds.)
\<close>

function bisect_left :: "float64 list \<Rightarrow> float64 \<Rightarrow> nat \<Rightarrow> nat \<Rightarrow> nat" where
  "bisect_left a key lo hi =
     (if lo < hi
      then (let mid = lo + (hi - lo) div 2
            in if np_less (a ! mid) key
               then bisect_left a key (mid + 1) hi
               else bisect_left a key lo mid)
      else lo)"
  by pat_completeness auto
termination
  by (relation "measure (\<lambda>(a, key, lo, hi). hi - lo)") auto

declare bisect_left.simps [simp del]

definition searchsorted :: "float64 list \<Rightarrow> float64 \<Rightarrow> nat" where
  "searchsorted a key = bisect_left a key 0 (length a)"

text \<open>
  \<^verbatim>\<open>
  def generate(self, observations):
      draw = self._state.uniform(size=observations.shape[0])
      p = draw / observations.values
      return pd.Series(self.profile["cdf"].searchsorted(p), index=observations.index)
  \<close>
  \<^verbatim>\<open>self._state\<close> is a seeded numpy RandomState, outside this file: \<open>draw\<close> is the
  array it returns, one variate in [0, 1) per observation.
\<close>

definition generate :: "CyclicTimerGenerator \<Rightarrow> float64 list \<Rightarrow> float64 list \<Rightarrow> nat list" where
  "generate self draw observations =
     (let p = map2 fdiv draw observations
      in map (searchsorted (cdf_col self)) p)"

text \<open>What the bisection returns on a column that the key splits in two: every entry
  before the result is below the key, no entry from the result on is.\<close>

definition splits_at :: "float64 list \<Rightarrow> float64 \<Rightarrow> nat \<Rightarrow> bool" where
  "splits_at a key r \<longleftrightarrow>
     r \<le> length a \<and> (\<forall>i<r. np_less (a ! i) key)
     \<and> (\<forall>i. r \<le> i \<and> i < length a \<longrightarrow> \<not> np_less (a ! i) key)"

section \<open>The clock\<close>

text \<open>
  The fields of a Clock. Instants and durations are integers of nanoseconds;
  \<^verbatim>\<open>timedelta(seconds=n)\<close> is the duration of \<open>n\<close> seconds. The private RandomState and
  the \<^verbatim>\<open>ops\<close> adapter are outside the model: the numbers the RandomState returns
  enter as arguments of the functions that draw them.
\<close>

definition timedelta :: "int \<Rightarrow> int" where
  "timedelta seconds = seconds * 1000000000"

text \<open>
  The current date is a \<^verbatim>\<open>pd.Timestamp\<close>: a signed 64-bit count of nanoseconds, of
  which the least value stands for NaT. Adding a \<^verbatim>\<open>timedelta\<close> to a Timestamp raises
  when the duration has no 64-bit count of nanoseconds or when the sum leaves the range
  of Timestamp; the Timestamp that was to be replaced is then left as it is.
\<close>

definition Timestamp_max :: int where
  "Timestamp_max = 9223372036854775807"

definition Timestamp_min :: int where
  "Timestamp_min = - 9223372036854775807"

definition is_Timestamp :: "int \<Rightarrow> bool" where
  "is_Timestamp t \<longleftrightarrow> Timestamp_min \<le> t \<and> t \<le> Timestamp_max"

definition Timestamp_add :: "int \<Rightarrow> int \<Rightarrow> error + int" where
  "Timestamp_add t delta =
     (if Timestamp_max < \<bar>delta\<bar> then Inl OverflowError
      else if is_Timestamp (t + delta) then Inr (t + delta)
      else Inl OutOfBoundsDatetime)"

record Clock =
  current_date :: int
  step_s :: int
  step_delta :: int
  output_format :: string
  ticks_per_day :: rat
  ticks_per_week :: rat
  increment_listeners :: "CyclicTimerGenerator list"

text \<open>
  \<^verbatim>\<open>
  def __init__(self, start, step_s, seed, output_format="%Y%m%d %H:%M:%S"):
      self.current_date = start
      self.step_s = step_s
      self.step_delta = timedelta(seconds=step_s)
      ...
      self.ticks_per_day = 24 * 60 * 60 / step_s
      self.ticks_per_week = self.ticks_per_day * 7
      self.__increment_listeners = []
  \<close>
  \<^verbatim>\<open>timedelta(seconds=step_s)\<close> raises OverflowError when the duration is of more than
  999999999 days in magnitude (the days are \<open>step_s\<close> divided by 86400, rounded down).
  The division is the true division of \<^verbatim>\<open>from __future__ import division\<close>; it
  raises ZeroDivisionError for a step of 0.
\<close>

definition Clock_init :: "int \<Rightarrow> int \<Rightarrow> string \<Rightarrow> error + Clock" where
  "Clock_init start step output_fmt =
     (if 999999999 < \<bar>step div 86400\<bar> then Inl OverflowError
      else if step = 0 then Inl ZeroDivisionError
      else Inr \<lparr>current_date = start,
                step_s = step,
                step_delta = timedelta step,
                output_format = output_fmt,
                ticks_per_day = (24 * 60 * 60) / of_int step,
                ticks_per_week = ((24 * 60 * 60) / of_int step) * 7,
                increment_listeners = []\<rparr>)"

definition register_increment_listener :: "CyclicTimerGenerator \<Rightarrow> Clock \<Rightarrow> Clock" where
  "register_increment_listener listener self =
     self\<lparr>increment_listeners := increment_listeners self @ [listener]\<rparr>"

text \<open>
  \<^verbatim>\<open>
  def increment(self):
      self.current_date += self.step_delta
      for listener in self.__increment_listeners:
          listener.increment()
  \<close>
  When the addition raises, the date is not assigned and no listener is called. The
  listeners are incremented in registration order. A listener that raises ends the
  loop: the listeners before it and the date have been updated, the others have not.
  The result is the clock after the call and the exception, if one was raised.
\<close>

fun notify :: "CyclicTimerGenerator list \<Rightarrow> CyclicTimerGenerator list \<times> error option" where
  "notify [] = ([], None)"
| "notify (listener # rest) =
     (case increment listener of
        Inl e \<Rightarrow> (listener # rest, Some e)
      | Inr listener' \<Rightarrow> (case notify rest of (rest', e) \<Rightarrow> (listener' # rest', e)))"

definition Clock_increment :: "Clock \<Rightarrow> Clock \<times> error option" where
  "Clock_increment self =
     (case Timestamp_add (current_date self) (step_delta self) of
        Inl e \<Rightarrow> (self, Some e)
      | Inr date \<Rightarrow>
          (let advanced = self\<lparr>current_date := date\<rparr>
           in case notify (increment_listeners advanced) of
                (listeners, e) \<Rightarrow> (advanced\<lparr>increment_listeners := listeners\<rparr>, e)))"



text \<open>The calls a program makes on a clock, and the clock after a sequence of them.\<close>

datatype clock_call = Increment | Register CyclicTimerGenerator | GetTimestamp "int list"

fun call :: "Clock \<Rightarrow> clock_call \<Rightarrow> Clock" where
  "call self Increment = fst (Clock_increment self)"
| "call self (Register listener) = register_increment_listener listener self"
| "call self (GetTimestamp xs) = self"

definition run :: "clock_call list \<Rightarrow> Clock \<Rightarrow> Clock" where
  "run calls self = foldl call self calls"

section \<open>Construction of a CyclicTimerGenerator\<close>

text \<open>
  \<^verbatim>\<open>
  class CyclicTimerProfile(object):
      def __init__(self, profile, profile_time_steps, start_date):
          self.start_date = start_date
          self.profile = profile
          self.profile_time_steps = profile_time_steps
  \<close>
  The list of weights is the field \<^verbatim>\<open>profile\<close>; it is called \<open>weights\<close> here
  because the table of the generator is a field \<^verbatim>\<open>profile\<close> too.
\<close>

record CyclicTimerProfile =
  start_date :: int
  weights :: "float64 list"
  profile_time_steps :: string

text \<open>
  The two pandas functions of the constructor whose results depend on pandas' own
  tables and versions are parameters of the model: \<open>Timedelta\<close>, the duration of a
  frequency string in nanoseconds (\<open>None\<close> where pandas raises ValueError), and
  \<open>resample\<close>, which is \<^verbatim>\<open>Series.resample(rule="<step_s>s", fill_method='pad')\<close>
  on a series of labelled values.
\<close>

type_synonym series = "(int \<times> float64) list"

record pandas =
  Timedelta :: "string \<Rightarrow> int option"
  resample :: "int \<Rightarrow> series \<Rightarrow> series"

text \<open>
  Modelled from the spec: \<^verbatim>\<open>latest_date_before\<close> of
  \<^verbatim>\<open>datagenerator.core.util_functions\<close>, which is not among the sources. The spec
  (4.3, macro alignment): the latest cycle-start instant at or before the current time,
  computed by stepping from the anchor date forward in whole-cycle increments until the
  next step would exceed the current time.
\<close>

partial_function (option) latest_date_before :: "int \<Rightarrow> int \<Rightarrow> int \<Rightarrow> int option" where
  "latest_date_before starting_date upper_bound time_step =
     (if starting_date + time_step \<le> upper_bound
      then latest_date_before (starting_date + time_step) upper_bound time_step
      else Some starting_date)"

declare latest_date_before.simps [code]

text \<open>\<^verbatim>\<open>pd.date_range(start, freq, periods)\<close>: \<open>periods\<close> labels, \<open>freq\<close> apart.\<close>

definition date_range :: "int \<Rightarrow> int \<Rightarrow> nat \<Rightarrow> int list" where
  "date_range start freq periods = map (\<lambda>k. start + int k * freq) [0..<periods]"

text \<open>\<^verbatim>\<open>Series.sum()\<close> and \<^verbatim>\<open>Series.cumsum()\<close> skip NaN entries (skipna); cumsum
  leaves NaN where the entry was NaN.\<close>

definition pd_sum :: "float64 list \<Rightarrow> float64" where
  "pd_sum xs = foldl fadd (Fin 0) (filter (\<lambda>x. x \<noteq> NaN) xs)"

fun pd_cumsum_from :: "float64 \<Rightarrow> float64 list \<Rightarrow> float64 list" where
  "pd_cumsum_from acc [] = []"
| "pd_cumsum_from acc (x # xs) =
     (if x = NaN then NaN # pd_cumsum_from acc xs
      else fadd acc x # pd_cumsum_from (fadd acc x) xs)"

definition pd_cumsum :: "float64 list \<Rightarrow> float64 list" where
  "pd_cumsum xs = pd_cumsum_from (Fin 0) xs"

text \<open>
  \<^verbatim>\<open>
  profile_cdf = (profile_ser / profile_ser.sum()).cumsum()
  self.profile = pd.DataFrame({"cdf": profile_cdf,
                               "timeframe": np.arange(len(profile_cdf))})
  \<close>
\<close>

definition profile_cdf :: "float64 list \<Rightarrow> float64 list" where
  "profile_cdf ws = pd_cumsum (map (\<lambda>w. fdiv w (pd_sum ws)) ws)"

definition cdf_table :: "series \<Rightarrow> CyclicTimerGenerator" where
  "cdf_table profile_ser =
     \<lparr>profile = map (\<lambda>(k, t, c). \<lparr>idx = t, cdf = c, timeframe = k\<rparr>)
                   (zip [0..<length profile_ser]
                      (zip (map fst profile_ser) (profile_cdf (map snd profile_ser))))\<rparr>"

text \<open>
  \<^verbatim>\<open>
  while self.profile.index[0] < clock.current_date:
      self.increment()
  \<close>
  \<^verbatim>\<open>index[0]\<close> raises IndexError on a table without rows. The loop need not end: its
  result is \<open>None\<close> when it does not.
\<close>

partial_function (option) align ::
    "int \<Rightarrow> CyclicTimerGenerator \<Rightarrow> (error + CyclicTimerGenerator) option" where
  "align now self =
     (case profile self of
        [] \<Rightarrow> Some (Inl IndexError)
      | r0 # _ \<Rightarrow>
          if idx r0 < now
          then (case increment self of
                  Inl e \<Rightarrow> Some (Inl e)
                | Inr g \<Rightarrow> align now g)
          else Some (Inr self))"

declare align.simps [code]

text \<open>
  \<^verbatim>\<open>
  def __init__(self, clock, seed, config):
      init_date = latest_date_before(
          starting_date=config.start_date,
          upper_bound=clock.current_date,
          time_step=pd.Timedelta(config.profile_time_steps)*len(config.profile))
      profile_idx = pd.date_range(start=init_date,
                                  freq=config.profile_time_steps,
                                  periods=len(config.profile)+1)
      profile_ser = pd.Series(data=config.profile + [np.nan], index=profile_idx)
      profile_ser = profile_ser.resample(rule="%ds" % clock.step_s,
                                         fill_method='pad')[:-1]
      profile_cdf = (profile_ser / profile_ser.sum()).cumsum()
      self.profile = pd.DataFrame({"cdf": profile_cdf,
                                   "timeframe": np.arange(len(profile_cdf))})
      while self.profile.index[0] < clock.current_date:
          self.increment()
      clock.register_increment_listener(self)
  \<close>
  The result is the new generator and the clock with the generator registered, an
  exception, or \<open>None\<close> when one of the two loops does not end. Nothing in the
  constructor looks at the total weight before it divides by it.
\<close>

definition profile_ser :: "pandas \<Rightarrow> Clock \<Rightarrow> CyclicTimerProfile \<Rightarrow> int \<Rightarrow> int \<Rightarrow> series" where
  "profile_ser pd clock config step init_date =
     (let profile_idx = date_range init_date step (length (weights config) + 1);
          unscaled = zip profile_idx (weights config @ [NaN])
      in butlast (resample pd (step_s clock) unscaled))"

definition CyclicTimerGenerator_init ::
    "pandas \<Rightarrow> Clock \<Rightarrow> CyclicTimerProfile \<Rightarrow> (error + CyclicTimerGenerator \<times> Clock) option" where
  "CyclicTimerGenerator_init pd clock config =
     (case Timedelta pd (profile_time_steps config) of
        None \<Rightarrow> Some (Inl ValueError)
      | Some step \<Rightarrow>
         (case latest_date_before (start_date config) (current_date clock)
                 (step * int (length (weights config))) of
            None \<Rightarrow> None
          | Some init_date \<Rightarrow>
             (case align (current_date clock)
                     (cdf_table (profile_ser pd clock config step init_date)) of
                None \<Rightarrow> None
              | Some (Inl e) \<Rightarrow> Some (Inl e)
              | Some (Inr self) \<Rightarrow> Some (Inr (self, register_increment_listener self clock)))))"

text \<open>
  The state the table is meant to be in: at least one row, row labels all different,
  a cumulative column of finite numbers that does not decrease, starts at a non-negative
  value and ends at exactly 1.
\<close>

definition closed_cdf :: "CyclicTimerGenerator \<Rightarrow> bool" where
  "closed_cdf self =
     (profile self \<noteq> [] \<and> distinct (index_col self)
      \<and> list_all is_fin (cdf_col self)
      \<and> sorted_wrt np_le (cdf_col self)
      \<and> np_le (Fin 0) (hd (cdf_col self))
      \<and> last (cdf_col self) = Fin 1)"

text \<open>The rebase-and-close step on a column of finite numbers.\<close>

definition rebase :: "rat list \<Rightarrow> rat list" where
  "rebase qs = map (\<lambda>q. q - hd qs) (tl qs) @ [1]"

text \<open>The generator after \<open>k\<close> calls of increment in a row, or the first exception.\<close>

fun increments :: "nat \<Rightarrow> CyclicTimerGenerator \<Rightarrow> error + CyclicTimerGenerator" where
  "increments 0 self = Inr self"
| "increments (Suc k) self =
     (case increment self of Inl e \<Rightarrow> Inl e | Inr g \<Rightarrow> increments k g)"

text \<open>Running sums from a start value, and the steps of a column from a start value.\<close>

fun cumsum_from :: "rat \<Rightarrow> rat list \<Rightarrow> rat list" where
  "cumsum_from a [] = []"
| "cumsum_from a (x # xs) = (a + x) # cumsum_from (a + x) xs"

fun diffs_from :: "rat \<Rightarrow> rat list \<Rightarrow> rat list" where
  "diffs_from a [] = []"
| "diffs_from a (q # qs) = (q - a) # diffs_from q qs"

text \<open>The table right after a division by a zero total: no cumulative value but a
  closing 1 is a finite number.\<close>

definition degenerate :: "CyclicTimerGenerator \<Rightarrow> bool" where
  "degenerate self =
     (profile self \<noteq> [] \<and> distinct (index_col self)
      \<and> list_all (\<lambda>c. \<not> is_fin c) (butlast (cdf_col self))
      \<and> (last (cdf_col self) = Fin 1 \<or> \<not> is_fin (last (cdf_col self))))"

text \<open>
  A pandas for the examples: the frequency string \<^verbatim>\<open>"1h"\<close>, and the resampling with
  forward fill, to a positive clock step, of a series whose first label lies on the grid
  of the clock: one row per clock step from the first label to the last, each with the
  value of the latest row of the series at or before it.
\<close>

definition pad_at :: "series \<Rightarrow> int \<Rightarrow> float64" where
  "pad_at ser t =
     (case filter (\<lambda>(l, v). l \<le> t) ser of [] \<Rightarrow> NaN | x # xs \<Rightarrow> snd (last (x # xs)))"

definition upsample_pad :: "int \<Rightarrow> series \<Rightarrow> series" where
  "upsample_pad step ser =
     (case ser of
        [] \<Rightarrow> []
      | (t0, _) # _ \<Rightarrow>
          map (\<lambda>k. (t0 + int k * timedelta step, pad_at ser (t0 + int k * timedelta step)))
            [0..<nat ((fst (last ser) - t0) div timedelta step) + 1])"

definition pd_example :: pandas where
  "pd_example =
     \<lparr>Timedelta = (\<lambda>freq. if freq = ''1h'' then Some 3600000000000 else None),
      resample = upsample_pad\<rparr>"

section \<open>Rotation of the table\<close>

lemma set_cdf_at_length [simp]: "length (set_cdf_at l v rs) = length rs"
  by (simp add: set_cdf_at_def)

lemma set_cdf_at_timeframe [simp]: "map timeframe (set_cdf_at l v rs) = map timeframe rs"
  by (simp add: set_cdf_at_def)

lemma set_cdf_at_idx [simp]: "map idx (set_cdf_at l v rs) = map idx rs"
  by (simp add: set_cdf_at_def)

lemma increment_Cons:
  "profile self = r0 # rs \<Longrightarrow>
   increment self = Inr (self\<lparr>profile :=
     set_cdf_at (idx r0) (Fin 1)
       (map (\<lambda>r. r\<lparr>cdf := fsub (cdf r) (cdf r0)\<rparr>) rs @ [r0\<lparr>cdf := fsub (cdf r0) (cdf r0)\<rparr>])\<rparr>)"
  by (simp add: increment_def Let_def)

text \<open>
  C10. Each call to increment on a table with at least one row keeps the number of rows,
  and the timeframe column afterwards is the column before rotated left by one position:
  the old first entry is moved to the end, so the multiset of phase indices is the same.
  (On a table without rows the call raises IndexError.)
\<close>

theorem increment_rotates_timeframe:
  assumes "profile self \<noteq> []"
  shows "\<exists>g. increment self = Inr g
           \<and> length (profile g) = length (profile self)
           \<and> timeframe_col g = rotate1 (timeframe_col self)
           \<and> timeframe_col g = tl (timeframe_col self) @ [hd (timeframe_col self)]
           \<and> mset (timeframe_col g) = mset (timeframe_col self)"
proof -
  from assms obtain r0 rs where p: "profile self = r0 # rs"
    by (cases "profile self") auto
  define g where "g = self\<lparr>profile :=
     set_cdf_at (idx r0) (Fin 1)
       (map (\<lambda>r. r\<lparr>cdf := fsub (cdf r) (cdf r0)\<rparr>) rs @ [r0\<lparr>cdf := fsub (cdf r0) (cdf r0)\<rparr>])\<rparr>"
  have inc: "increment self = Inr g"
    unfolding g_def by (rule increment_Cons [OF p])
  have len: "length (profile g) = length (profile self)"
    by (simp add: g_def p)
  have tf: "timeframe_col g = rotate1 (timeframe_col self)"
    by (simp add: g_def p timeframe_col_def)
  have tf': "timeframe_col g = tl (timeframe_col self) @ [hd (timeframe_col self)]"
    using tf by (simp add: p timeframe_col_def)
  have "mset (timeframe_col g) = mset (timeframe_col self)"
    using tf' by (simp add: p timeframe_col_def)
  with inc len tf tf' show ?thesis by blast
qed

theorem increment_rotates_timeframe_witness:
  "\<exists>g. increment \<lparr>profile = [\<lparr>idx = 0, cdf = Fin (1/4), timeframe = 0\<rparr>,
                              \<lparr>idx = 10, cdf = Fin (1/2), timeframe = 1\<rparr>,
                              \<lparr>idx = 20, cdf = Fin 1, timeframe = 2\<rparr>]\<rparr> = Inr g
       \<and> length (profile g) = 3
       \<and> timeframe_col g = [1, 2, 0]"
proof -
  let ?s = "\<lparr>profile = [\<lparr>idx = 0, cdf = Fin (1/4), timeframe = 0\<rparr>,
                       \<lparr>idx = 10, cdf = Fin (1/2), timeframe = 1\<rparr>,
                       \<lparr>idx = 20, cdf = Fin 1, timeframe = 2\<rparr>]\<rparr>"
  have ne: "profile ?s \<noteq> []" by simp
  from increment_rotates_timeframe [OF ne] obtain g where
    "increment ?s = Inr g" "length (profile g) = length (profile ?s)"
    "timeframe_col g = rotate1 (timeframe_col ?s)" by blast
  then show ?thesis by (simp add: timeframe_col_def)
qed

section \<open>The cycle stays closed under rotation\<close>

lemma all_fin_map_Fin: "list_all is_fin cs \<Longrightarrow> \<exists>qs. cs = map Fin qs"
proof (induction cs)
  case Nil
  then show ?case by simp
next
  case (Cons c cs)
  then obtain qs where "cs = map Fin qs" by auto
  moreover from Cons.prems obtain q where "c = Fin q" by (cases c) auto
  ultimately have "c # cs = map Fin (q # qs)" by simp
  then show ?case by (rule exI)
qed

lemma np_le_Fin [simp]: "np_le (Fin a) (Fin b) = (a \<le> b)"
  by (auto simp: np_le_def)

lemma sorted_wrt_np_le_Fin: "sorted_wrt np_le (map Fin qs) = sorted qs"
  by (induction qs) auto

lemma fsub_Fin [simp]: "fsub (Fin a) (Fin b) = Fin (a - b)"
  by (simp add: fsub_def)

lemma set_cdf_at_last:
  "idx r \<notin> idx ` set xs \<Longrightarrow> set_cdf_at (idx r) v (xs @ [r]) = xs @ [r\<lparr>cdf := v\<rparr>]"
  by (induction xs) (auto simp: set_cdf_at_def)

lemma increment_distinct:
  assumes p: "profile self = r0 # rs" and d: "distinct (map idx (r0 # rs))"
  shows "increment self =
           Inr (self\<lparr>profile := map (\<lambda>r. r\<lparr>cdf := fsub (cdf r) (cdf r0)\<rparr>) rs @ [r0\<lparr>cdf := Fin 1\<rparr>]\<rparr>)"
proof -
  let ?r = "r0\<lparr>cdf := fsub (cdf r0) (cdf r0)\<rparr>"
  let ?xs = "map (\<lambda>r. r\<lparr>cdf := fsub (cdf r) (cdf r0)\<rparr>) rs"
  have "idx ?r \<notin> idx ` set ?xs" using d by (auto simp: image_iff)
  from set_cdf_at_last [OF this, of "Fin 1"]
  have "set_cdf_at (idx r0) (Fin 1) (?xs @ [?r]) = ?xs @ [r0\<lparr>cdf := Fin 1\<rparr>]" by simp
  then show ?thesis by (simp add: increment_Cons [OF p])
qed

lemma increment_cdf_col:
  assumes p: "profile self \<noteq> []" and d: "distinct (index_col self)"
    and c: "cdf_col self = map Fin qs"
  shows "\<exists>g. increment self = Inr g \<and> cdf_col g = map Fin (rebase qs)
           \<and> index_col g = rotate1 (index_col self)
           \<and> timeframe_col g = rotate1 (timeframe_col self)"
proof -
  from p obtain r0 rs where pr: "profile self = r0 # rs" by (cases "profile self") auto
  from c pr obtain q0 qs' where qs: "qs = q0 # qs'" and q0: "cdf r0 = Fin q0"
    and qs': "map cdf rs = map Fin qs'"
    by (cases qs) (auto simp: cdf_col_def)
  have d': "distinct (map idx (r0 # rs))" using d pr by (simp add: index_col_def)
  let ?g = "self\<lparr>profile := map (\<lambda>r. r\<lparr>cdf := fsub (cdf r) (cdf r0)\<rparr>) rs @ [r0\<lparr>cdf := Fin 1\<rparr>]\<rparr>"
  have inc: "increment self = Inr ?g" by (rule increment_distinct [OF pr d'])
  have "map (\<lambda>r. fsub (cdf r) (Fin q0)) rs = map (\<lambda>c. fsub c (Fin q0)) (map cdf rs)"
    by simp
  also have "\<dots> = map Fin (map (\<lambda>q. q - q0) qs')"
    by (simp add: qs')
  finally have "cdf_col ?g = map Fin (rebase qs)"
    by (simp add: cdf_col_def rebase_def qs q0 o_def)
  moreover have "index_col ?g = rotate1 (index_col self)"
    by (simp add: index_col_def pr o_def)
  moreover have "timeframe_col ?g = rotate1 (timeframe_col self)"
    by (simp add: timeframe_col_def pr o_def)
  ultimately show ?thesis using inc by blast
qed

lemma sorted_le_last: "sorted (xs :: rat list) \<Longrightarrow> x \<in> set xs \<Longrightarrow> x \<le> last xs"
  by (induction xs) (auto split: if_splits)

lemma sorted_map_minus: "sorted (xs :: rat list) \<Longrightarrow> sorted (map (\<lambda>q. q - c) xs)"
  by (induction xs) auto

lemma rebase_sorted:
  assumes "qs \<noteq> []" "sorted qs" "0 \<le> hd qs" "last qs = 1"
  shows "sorted (rebase qs) \<and> 0 \<le> hd (rebase qs) \<and> last (rebase qs) = 1"
proof -
  from assms(1) obtain q0 qs' where qs: "qs = q0 # qs'" by (cases qs) auto
  have le1: "q \<le> 1" if "q \<in> set qs" for q
    using sorted_le_last [OF assms(2) that] assms(4) by simp
  have s: "sorted (map (\<lambda>q. q - q0) qs')"
    using assms(2) qs by (simp add: sorted_map_minus)
  have "\<forall>x \<in> set (map (\<lambda>q. q - q0) qs'). x \<le> 1"
    using le1 assms(3) qs by fastforce
  with s have "sorted (rebase qs)"
    by (simp add: rebase_def qs sorted_append)
  moreover have "0 \<le> hd (rebase qs)"
    using assms(2) qs by (cases qs') (auto simp: rebase_def)
  moreover have "last (rebase qs) = 1" by (simp add: rebase_def)
  ultimately show ?thesis by blast
qed


lemma closed_cdf_rat:
  "closed_cdf self \<longleftrightarrow>
     (\<exists>qs. cdf_col self = map Fin qs \<and> qs \<noteq> [] \<and> sorted qs \<and> 0 \<le> hd qs \<and> last qs = 1)
     \<and> distinct (index_col self)"
proof
  assume c: "closed_cdf self"
  then obtain qs where qs: "cdf_col self = map Fin qs"
    using all_fin_map_Fin by (auto simp: closed_cdf_def)
  from c have ne: "qs \<noteq> []" using qs by (auto simp: closed_cdf_def cdf_col_def)
  from c qs have "sorted qs" by (simp add: closed_cdf_def sorted_wrt_np_le_Fin)
  moreover from c qs ne have "0 \<le> hd qs" by (simp add: closed_cdf_def hd_map)
  moreover from c qs ne have "last qs = 1" by (simp add: closed_cdf_def last_map)
  ultimately show "(\<exists>qs. cdf_col self = map Fin qs \<and> qs \<noteq> [] \<and> sorted qs \<and> 0 \<le> hd qs \<and> last qs = 1)
     \<and> distinct (index_col self)"
    using qs ne c by (auto simp: closed_cdf_def)
next
  assume "(\<exists>qs. cdf_col self = map Fin qs \<and> qs \<noteq> [] \<and> sorted qs \<and> 0 \<le> hd qs \<and> last qs = 1)
     \<and> distinct (index_col self)"
  then obtain qs where qs: "cdf_col self = map Fin qs" "qs \<noteq> []" "sorted qs" "0 \<le> hd qs" "last qs = 1"
    and d: "distinct (index_col self)" by blast
  have "profile self \<noteq> []" using qs(1,2) by (auto simp: cdf_col_def)
  moreover have "list_all is_fin (cdf_col self)" by (simp add: qs(1) list_all_iff)
  ultimately show "closed_cdf self"
    using qs d by (simp add: closed_cdf_def sorted_wrt_np_le_Fin hd_map last_map)
qed

text \<open>
  C1 (as amended). On a table in the closed state (rows present, labels different, a
  finite non-decreasing cumulative column from a non-negative first value to 1), each
  call to increment returns a table in the closed state again: the last cumulative
  probability is exactly 1 and the column does not decrease. The first cumulative
  probability is not 0 in general: it is non-negative, and with two rows or more it is
  the old second value minus the old first value, the mass of the tick that has become
  the current one.
\<close>

theorem increment_closes_cycle:
  assumes "closed_cdf self"
  shows "\<exists>g. increment self = Inr g
           \<and> last (cdf_col g) = Fin 1
           \<and> sorted_wrt np_le (cdf_col g)
           \<and> np_le (Fin 0) (hd (cdf_col g))
           \<and> (2 \<le> length (profile self) \<longrightarrow>
                hd (cdf_col g) = fsub (cdf_col self ! 1) (cdf_col self ! 0))
           \<and> closed_cdf g"
proof -
  from assms obtain qs where qs: "cdf_col self = map Fin qs" "qs \<noteq> []" "sorted qs"
      "0 \<le> hd qs" "last qs = 1" and d: "distinct (index_col self)"
    unfolding closed_cdf_rat by blast
  have ne: "profile self \<noteq> []" using qs(1,2) by (auto simp: cdf_col_def)
  from increment_cdf_col [OF ne d qs(1)] obtain g where
    g: "increment self = Inr g" "cdf_col g = map Fin (rebase qs)"
       "index_col g = rotate1 (index_col self)" by blast
  from rebase_sorted [OF qs(2-5)] have
    r: "sorted (rebase qs)" "0 \<le> hd (rebase qs)" "last (rebase qs) = 1" by blast+
  have rne: "rebase qs \<noteq> []" by (simp add: rebase_def)
  have cg: "closed_cdf g"
    unfolding closed_cdf_rat using g r rne d by auto
  have first: "hd (cdf_col g) = fsub (cdf_col self ! 1) (cdf_col self ! 0)"
    if "2 \<le> length (profile self)"
  proof -
    from that qs(1) obtain a b rest where "qs = a # b # rest"
      by (cases qs; cases "tl qs") (auto simp: cdf_col_def dest: arg_cong [where f = length])
    then show ?thesis by (simp add: g(2) qs(1) rebase_def)
  qed
  have "last (cdf_col g) = Fin 1" using r(3) rne by (simp add: g(2) last_map)
  moreover have "sorted_wrt np_le (cdf_col g)" using r(1) by (simp add: g(2) sorted_wrt_np_le_Fin)
  moreover have "np_le (Fin 0) (hd (cdf_col g))" using r(2) rne by (simp add: g(2) hd_map)
  ultimately show ?thesis using g(1) cg first by blast
qed

theorem increment_closes_cycle_witness:
  "\<exists>g. increment \<lparr>profile = [\<lparr>idx = 0, cdf = Fin (1/4), timeframe = 0\<rparr>,
                              \<lparr>idx = 10, cdf = Fin (1/2), timeframe = 1\<rparr>,
                              \<lparr>idx = 20, cdf = Fin 1, timeframe = 2\<rparr>]\<rparr> = Inr g
       \<and> cdf_col g = [Fin (1/4), Fin (3/4), Fin 1]
       \<and> closed_cdf g"
proof -
  let ?s = "\<lparr>profile = [\<lparr>idx = 0, cdf = Fin (1/4), timeframe = 0\<rparr>,
                       \<lparr>idx = 10, cdf = Fin (1/2), timeframe = 1\<rparr>,
                       \<lparr>idx = 20, cdf = Fin 1, timeframe = 2\<rparr>]\<rparr>"
  have c: "closed_cdf ?s"
    by (simp add: closed_cdf_def cdf_col_def index_col_def)
  from increment_closes_cycle [OF c] obtain g where
    g: "increment ?s = Inr g" "closed_cdf g" by blast
  from g(1) have "cdf_col g = [Fin (1/4), Fin (3/4), Fin 1]"
    by (auto simp: increment_def set_cdf_at_def cdf_col_def)
  with g show ?thesis by blast
qed

text \<open>
  A profile of two phases of one hour with the weights 1 and 1, on a clock of hourly
  steps that stands at the anchor date: the constructor returns the table with the
  cumulative column 1/2, 1. After one rotation the column is 1/2, 1 again: its first
  value is 1/2, not 0.
\<close>

theorem increment_first_row_counterexample:
  "CyclicTimerGenerator_init pd_example
       \<lparr>current_date = 0, step_s = 3600, step_delta = 3600000000000,
        output_format = ''%Y%m%d %H:%M:%S'', ticks_per_day = 24, ticks_per_week = 168,
        increment_listeners = []\<rparr>
       \<lparr>start_date = 0, weights = [Fin 1, Fin 1], profile_time_steps = ''1h''\<rparr>
     = Some (Inr (\<lparr>profile = [\<lparr>idx = 0, cdf = Fin (1/2), timeframe = 0\<rparr>,
                              \<lparr>idx = 3600000000000, cdf = Fin 1, timeframe = 1\<rparr>]\<rparr>,
       \<lparr>current_date = 0, step_s = 3600, step_delta = 3600000000000,
        output_format = ''%Y%m%d %H:%M:%S'', ticks_per_day = 24, ticks_per_week = 168,
        increment_listeners = [\<lparr>profile = [\<lparr>idx = 0, cdf = Fin (1/2), timeframe = 0\<rparr>,
                              \<lparr>idx = 3600000000000, cdf = Fin 1, timeframe = 1\<rparr>]\<rparr>]\<rparr>))
   \<and> increment \<lparr>profile = [\<lparr>idx = 0, cdf = Fin (1/2), timeframe = 0\<rparr>,
                           \<lparr>idx = 3600000000000, cdf = Fin 1, timeframe = 1\<rparr>]\<rparr>
     = Inr \<lparr>profile = [\<lparr>idx = 3600000000000, cdf = Fin (1/2), timeframe = 1\<rparr>,
                        \<lparr>idx = 0, cdf = Fin 1, timeframe = 0\<rparr>]\<rparr>
   \<and> hd (cdf_col \<lparr>profile = [\<lparr>idx = 3600000000000, cdf = Fin (1/2), timeframe = 1\<rparr>,
                               \<lparr>idx = 0, cdf = Fin 1, timeframe = 0\<rparr>]\<rparr>) \<noteq> Fin 0"
  by code_simp

section \<open>A full cycle of rotations\<close>

lemma cumsum_diffs: "cumsum_from a (diffs_from a qs) = qs"
  by (induction qs arbitrary: a) simp_all

lemma sum_diffs: "sum_list (diffs_from a qs) = last (a # qs) - a"
  by (induction qs arbitrary: a) simp_all

lemma length_cumsum_from [simp]: "length (cumsum_from a xs) = length xs"
  by (induction xs arbitrary: a) simp_all

lemma cumsum_from_snoc:
  "cumsum_from a (xs @ [y]) = cumsum_from a xs @ [a + sum_list xs + y]"
  by (induction xs arbitrary: a) (simp_all add: algebra_simps)

lemma cumsum_from_shift: "map (\<lambda>q. q - c) (cumsum_from a xs) = cumsum_from (a - c) xs"
  by (induction xs arbitrary: a) (simp_all add: algebra_simps)

lemma rebase_cumsum:
  assumes "ps \<noteq> []" "sum_list ps = 1"
  shows "rebase (cumsum_from 0 ps) = cumsum_from 0 (rotate1 ps)"
proof -
  from assms(1) obtain p ps' where ps: "ps = p # ps'" by (cases ps) auto
  have "rebase (cumsum_from 0 ps) = map (\<lambda>q. q - p) (cumsum_from p ps') @ [1]"
    by (simp add: ps rebase_def)
  also have "\<dots> = cumsum_from 0 ps' @ [1]"
    by (simp add: cumsum_from_shift)
  also have "\<dots> = cumsum_from 0 (ps' @ [p])"
    using assms(2) by (simp add: cumsum_from_snoc ps add.commute)
  finally show ?thesis by (simp add: ps)
qed

lemma increments_rotate:
  "profile self \<noteq> [] \<Longrightarrow> distinct (index_col self) \<Longrightarrow>
   cdf_col self = map Fin (cumsum_from 0 ps) \<Longrightarrow> sum_list ps = 1 \<Longrightarrow>
   \<exists>g. increments k self = Inr g
       \<and> cdf_col g = map Fin (cumsum_from 0 (rotate k ps))
       \<and> index_col g = rotate k (index_col self)
       \<and> timeframe_col g = rotate k (timeframe_col self)"
proof (induction k arbitrary: self ps)
  case 0
  then show ?case by simp
next
  case (Suc k)
  have len: "length ps = length (profile self)"
    using Suc.prems(3) by (auto simp: cdf_col_def dest: arg_cong [where f = length])
  with Suc.prems(1) have ne: "ps \<noteq> []" by auto
  from increment_cdf_col [OF Suc.prems(1,2,3)] obtain g1 where
    g1: "increment self = Inr g1" "cdf_col g1 = map Fin (rebase (cumsum_from 0 ps))"
        "index_col g1 = rotate1 (index_col self)"
        "timeframe_col g1 = rotate1 (timeframe_col self)" by blast
  have c1: "cdf_col g1 = map Fin (cumsum_from 0 (rotate1 ps))"
    by (simp add: g1(2) rebase_cumsum [OF ne Suc.prems(4)])
  have "length (index_col g1) = length (index_col self)"
    by (simp add: g1(3))
  with Suc.prems(1) have p1: "profile g1 \<noteq> []" by (auto simp: index_col_def)
  have d1: "distinct (index_col g1)" using Suc.prems(2) by (simp add: g1(3))
  have s1: "sum_list (rotate1 ps) = 1"
    using Suc.prems(4) ne by (cases ps) simp_all
  from Suc.IH [OF p1 d1 c1 s1] obtain g where
    g: "increments k g1 = Inr g" "cdf_col g = map Fin (cumsum_from 0 (rotate k (rotate1 ps)))"
       "index_col g = rotate k (index_col g1)" "timeframe_col g = rotate k (timeframe_col g1)"
    by blast
  have "increments (Suc k) self = Inr g" by (simp add: g1(1) g(1))
  moreover have "cdf_col g = map Fin (cumsum_from 0 (rotate (Suc k) ps))"
    by (simp add: g(2) rotate1_rotate_swap)
  moreover have "index_col g = rotate (Suc k) (index_col self)"
    by (simp add: g(3) g1(3) rotate1_rotate_swap)
  moreover have "timeframe_col g = rotate (Suc k) (timeframe_col self)"
    by (simp add: g(4) g1(4) rotate1_rotate_swap)
  ultimately show ?case by blast
qed

lemma rows_eq:
  "map idx a = map idx b \<Longrightarrow> map cdf a = map cdf b \<Longrightarrow> map timeframe a = map timeframe b \<Longrightarrow>
   a = (b :: row list)"
proof (induction a arbitrary: b)
  case Nil
  then show ?case by simp
next
  case (Cons r a)
  then obtain s b' where b: "b = s # b'" by (cases b) auto
  with Cons.prems have "r = s" by simp
  moreover from Cons b have "a = b'" by simp
  ultimately show ?case by (simp add: b)
qed

text \<open>
  C5. On a table with at least one row, distinct labels and a finite cumulative column
  that ends at 1, as many calls of increment as the table has rows bring the generator
  back to the state it started from: the cumulative column (exactly, in the exact
  arithmetic of the model), the timeframe column and the row labels are those before the
  rotations.
\<close>

theorem increment_periodic:
  assumes "profile self \<noteq> []" "distinct (index_col self)"
    and "list_all is_fin (cdf_col self)" "last (cdf_col self) = Fin 1"
  shows "increments (length (profile self)) self = Inr self"
proof -
  from all_fin_map_Fin [OF assms(3)] obtain qs where qs: "cdf_col self = map Fin qs" by blast
  have lq: "length qs = length (profile self)"
    using qs by (auto simp: cdf_col_def dest: arg_cong [where f = length])
  with assms(1) have qne: "qs \<noteq> []" by auto
  define ps where "ps = diffs_from 0 qs"
  have c: "cdf_col self = map Fin (cumsum_from 0 ps)" by (simp add: qs ps_def cumsum_diffs)
  have "last qs = 1" using assms(4) qne by (simp add: qs last_map)
  then have s: "sum_list ps = 1" using qne by (simp add: ps_def sum_diffs)
  have lp: "length ps = length (profile self)"
    using c by (auto simp: cdf_col_def dest: arg_cong [where f = length])
  from increments_rotate [OF assms(1,2) c s, of "length (profile self)"] obtain g where
    g: "increments (length (profile self)) self = Inr g"
       "cdf_col g = map Fin (cumsum_from 0 (rotate (length (profile self)) ps))"
       "index_col g = rotate (length (profile self)) (index_col self)"
       "timeframe_col g = rotate (length (profile self)) (timeframe_col self)" by blast
  have "cdf_col g = cdf_col self" using g(2) lp c by (simp add: rotate_id)
  moreover have "index_col g = index_col self" using g(3) by (simp add: rotate_id index_col_def)
  moreover have "timeframe_col g = timeframe_col self"
    using g(4) by (simp add: rotate_id timeframe_col_def)
  ultimately have "profile g = profile self"
    by (intro rows_eq) (simp_all add: cdf_col_def index_col_def timeframe_col_def)
  then have "g = self" by simp
  with g(1) show ?thesis by simp
qed

theorem increment_periodic_witness:
  "increments 3 \<lparr>profile = [\<lparr>idx = 0, cdf = Fin (1/4), timeframe = 0\<rparr>,
                             \<lparr>idx = 10, cdf = Fin (1/2), timeframe = 1\<rparr>,
                             \<lparr>idx = 20, cdf = Fin 1, timeframe = 2\<rparr>]\<rparr>
     = Inr \<lparr>profile = [\<lparr>idx = 0, cdf = Fin (1/4), timeframe = 0\<rparr>,
                        \<lparr>idx = 10, cdf = Fin (1/2), timeframe = 1\<rparr>,
                        \<lparr>idx = 20, cdf = Fin 1, timeframe = 2\<rparr>]\<rparr>"
proof -
  let ?s = "\<lparr>profile = [\<lparr>idx = 0, cdf = Fin (1/4), timeframe = 0\<rparr>,
                       \<lparr>idx = 10, cdf = Fin (1/2), timeframe = 1\<rparr>,
                       \<lparr>idx = 20, cdf = Fin 1, timeframe = 2\<rparr>]\<rparr>"
  have "increments (length (profile ?s)) ?s = Inr ?s"
    by (rule increment_periodic) (simp_all add: cdf_col_def index_col_def)
  moreover have "length (profile ?s) = 3" by simp
  ultimately show ?thesis by (simp only:)
qed

section \<open>The bisection of the cumulative column\<close>

lemma bisect_left_stop: "\<not> lo < hi \<Longrightarrow> bisect_left a key lo hi = lo"
  by (subst bisect_left.simps) simp

lemma bisect_left_step:
  "lo < hi \<Longrightarrow>
   bisect_left a key lo hi =
     (if np_less (a ! (lo + (hi - lo) div 2)) key
      then bisect_left a key (lo + (hi - lo) div 2 + 1) hi
      else bisect_left a key lo (lo + (hi - lo) div 2))"
  by (subst bisect_left.simps) (simp add: Let_def)

lemma bisect_left_splits:
  "\<forall>i j. i \<le> j \<and> j < length a \<and> np_less (a ! j) key \<longrightarrow> np_less (a ! i) key \<Longrightarrow>
   lo \<le> hi \<Longrightarrow> hi \<le> length a \<Longrightarrow> \<forall>i<lo. np_less (a ! i) key \<Longrightarrow>
   \<forall>i. hi \<le> i \<and> i < length a \<longrightarrow> \<not> np_less (a ! i) key \<Longrightarrow>
   splits_at a key (bisect_left a key lo hi)"
proof (induction a key lo hi rule: bisect_left.induct)
  case (1 a key lo hi)
  note mono = "1.prems"(1)
  show ?case
  proof (cases "lo < hi")
    case False
    with "1.prems" have "lo = hi" by simp
    with "1.prems" False show ?thesis
      by (simp add: bisect_left_stop splits_at_def)
  next
    case True
    define mid where "mid = lo + (hi - lo) div 2"
    have m: "lo \<le> mid" "mid < hi" using True by (auto simp: mid_def)
    show ?thesis
    proof (cases "np_less (a ! mid) key")
      case below: True
      have "\<forall>i<mid + 1. np_less (a ! i) key"
      proof (intro allI impI)
        fix i assume "i < mid + 1"
        then have "i \<le> mid" by simp
        moreover have "mid < length a" using m "1.prems" by simp
        ultimately show "np_less (a ! i) key" using below mono by blast
      qed
      with "1.IH"(1) [OF True mid_def below] mono m "1.prems"
      have "splits_at a key (bisect_left a key (mid + 1) hi)" by simp
      with True below show ?thesis by (simp add: bisect_left_step mid_def)
    next
      case notbelow: False
      have "\<forall>i. mid \<le> i \<and> i < length a \<longrightarrow> \<not> np_less (a ! i) key"
        using notbelow mono by blast
      with "1.IH"(2) [OF True mid_def notbelow] mono m "1.prems"
      have "splits_at a key (bisect_left a key lo mid)" by simp
      with True notbelow show ?thesis by (simp add: bisect_left_step mid_def)
    qed
  qed
qed

lemma np_le_less_trans: "np_le a b \<Longrightarrow> np_less b c \<Longrightarrow> np_less a c"
  by (cases a; cases b; cases c) (auto simp: np_le_def)

lemma np_less_le_trans: "np_less a b \<Longrightarrow> np_le b c \<Longrightarrow> np_less a c"
  by (cases a; cases b; cases c) (auto simp: np_le_def)

lemma np_le_refl: "np_le a a"
  by (cases a) (auto simp: np_le_def)

lemma searchsorted_splits:
  assumes "sorted_wrt np_le a"
  shows "splits_at a key (searchsorted a key)"
  unfolding searchsorted_def
proof (rule bisect_left_splits)
  show "\<forall>i j. i \<le> j \<and> j < length a \<and> np_less (a ! j) key \<longrightarrow> np_less (a ! i) key"
  proof (intro allI impI, elim conjE)
  fix i j assume ij: "i \<le> j" "j < length a" "np_less (a ! j) key"
  have "np_le (a ! i) (a ! j)"
  proof (cases "i = j")
    case True
    then show ?thesis by (simp add: np_le_refl)
  next
    case False
    with ij have "i < j" by simp
    with assms ij show ?thesis by (simp add: sorted_wrt_iff_nth_less)
  qed
  with ij(3) show "np_less (a ! i) key" by (blast intro: np_le_less_trans)
  qed
qed auto

lemma searchsorted_mono:
  assumes s: "sorted_wrt np_le a" and k: "np_le k2 k1"
  shows "searchsorted a k2 \<le> searchsorted a k1"
proof (rule ccontr)
  assume "\<not> searchsorted a k2 \<le> searchsorted a k1"
  then have lt: "searchsorted a k1 < searchsorted a k2" by simp
  from searchsorted_splits [OF s, of k2] lt
  have "np_less (a ! searchsorted a k1) k2" and "searchsorted a k1 < length a"
    by (auto simp: splits_at_def)
  moreover from this(1) k have "np_less (a ! searchsorted a k1) k1"
    by (rule np_less_le_trans)
  ultimately show False
    using searchsorted_splits [OF s, of k1] by (auto simp: splits_at_def)
qed

lemma bisect_left_all_below:
  "lo \<le> hi \<Longrightarrow> hi \<le> length a \<Longrightarrow> \<forall>i<hi. np_less (a ! i) key \<Longrightarrow>
   bisect_left a key lo hi = hi"
proof (induction a key lo hi rule: bisect_left.induct)
  case (1 a key lo hi)
  show ?case
  proof (cases "lo < hi")
    case False
    with "1.prems" show ?thesis by (simp add: bisect_left_stop)
  next
    case True
    define mid where "mid = lo + (hi - lo) div 2"
    have m: "lo \<le> mid" "mid < hi" using True by (auto simp: mid_def)
    then have below: "np_less (a ! mid) key" using "1.prems" by simp
    from "1.IH"(1) [OF True mid_def below] m "1.prems"
    have "bisect_left a key (mid + 1) hi = hi" by simp
    with True below show ?thesis by (simp add: bisect_left_step mid_def)
  qed
qed

lemma bisect_left_none_below:
  "lo \<le> hi \<Longrightarrow> hi \<le> length a \<Longrightarrow> \<forall>i<hi. \<not> np_less (a ! i) key \<Longrightarrow>
   bisect_left a key lo hi = lo"
proof (induction a key lo hi rule: bisect_left.induct)
  case (1 a key lo hi)
  show ?case
  proof (cases "lo < hi")
    case False
    then show ?thesis by (simp add: bisect_left_stop)
  next
    case True
    define mid where "mid = lo + (hi - lo) div 2"
    have m: "lo \<le> mid" "mid < hi" using True by (auto simp: mid_def)
    then have notbelow: "\<not> np_less (a ! mid) key" using "1.prems" by simp
    from "1.IH"(2) [OF True mid_def notbelow] m "1.prems"
    have "bisect_left a key lo mid = lo" by simp
    with True notbelow show ?thesis by (simp add: bisect_left_step mid_def)
  qed
qed

lemma searchsorted_all_below:
  "\<forall>c \<in> set a. np_less c key \<Longrightarrow> searchsorted a key = length a"
  by (simp add: searchsorted_def bisect_left_all_below)

lemma searchsorted_none_below:
  "\<forall>c \<in> set a. \<not> np_less c key \<Longrightarrow> searchsorted a key = 0"
  by (simp add: searchsorted_def bisect_left_none_below)

section \<open>Properties of the sampled waiting times\<close>

lemma generate_nth:
  assumes "length draw = length observations" "i < length observations"
  shows "generate self draw observations ! i
           = searchsorted (cdf_col self) (fdiv (draw ! i) (observations ! i))"
  using assms by (simp add: generate_def)

lemma generate_length:
  "length draw = length observations \<Longrightarrow>
   length (generate self draw observations) = length observations"
  by (simp add: generate_def)

text \<open>
  C3. For a table whose cumulative column is sorted (in the order numpy searches by) and
  one draw \<open>r\<close> in [0, 1) used for two actors with strictly positive observations
  \<open>o1 < o2\<close>, the wait-time of the actor with \<open>o2\<close> is never longer than the wait-time
  of the actor with \<open>o1\<close>.
\<close>

theorem generate_antitone:
  assumes "sorted_wrt np_le (cdf_col self)" "0 \<le> r" "r < 1" "0 < o1" "o1 < o2"
  shows "\<exists>w1 w2. generate self [Fin r, Fin r] [Fin o1, Fin o2] = [w1, w2] \<and> w2 \<le> w1"
proof -
  have "r / o2 \<le> r / o1"
    using assms(2,4,5) by (simp add: frac_le)
  then have "np_le (fdiv (Fin r) (Fin o2)) (fdiv (Fin r) (Fin o1))"
    using assms(4,5) by simp
  from searchsorted_mono [OF assms(1) this]
  show ?thesis by (simp add: generate_def)
qed

theorem generate_antitone_witness:
  "generate \<lparr>profile = [\<lparr>idx = 0, cdf = Fin (1/4), timeframe = 0\<rparr>,
                         \<lparr>idx = 10, cdf = Fin (1/2), timeframe = 1\<rparr>,
                         \<lparr>idx = 20, cdf = Fin 1, timeframe = 2\<rparr>]\<rparr>
      [Fin (1/2), Fin (1/2)] [Fin 1, Fin 4] = [1, 0]"
proof -
  let ?s = "\<lparr>profile = [\<lparr>idx = 0, cdf = Fin (1/4), timeframe = 0\<rparr>,
                       \<lparr>idx = 10, cdf = Fin (1/2), timeframe = 1\<rparr>,
                       \<lparr>idx = 20, cdf = Fin 1, timeframe = 2\<rparr>]\<rparr>"
  have s: "sorted_wrt np_le (cdf_col ?s)" by (simp add: cdf_col_def)
  from generate_antitone [OF s, of "1/2" 1 4] obtain w1 w2 where
    "generate ?s [Fin (1/2), Fin (1/2)] [Fin 1, Fin 4] = [w1, w2]" "w2 \<le> w1" by auto
  moreover have "generate ?s [Fin (1/2), Fin (1/2)] [Fin 1, Fin 4] = [1, 0]"
    by (simp add: generate_def cdf_col_def searchsorted_def bisect_left.simps)
  ultimately show ?thesis by simp
qed

text \<open>
  C4. Whenever \<open>p = r / observation\<close> is above every cumulative probability of the
  table (as it is for an observation close to zero, where \<open>p > 1\<close>), the wait-time
  returned for that observation is exactly the number of rows of the table: one full
  cycle. The search does not read beyond the column and nothing is raised.
\<close>

theorem generate_beyond_cycle:
  assumes "length draw = length observations" "i < length observations"
    and "\<forall>c \<in> set (cdf_col self). np_less c (fdiv (draw ! i) (observations ! i))"
  shows "generate self draw observations ! i = length (profile self)"
  using assms by (simp add: generate_nth searchsorted_all_below cdf_col_def)

theorem generate_beyond_cycle_witness:
  "generate \<lparr>profile = [\<lparr>idx = 0, cdf = Fin (1/4), timeframe = 0\<rparr>,
                         \<lparr>idx = 10, cdf = Fin (1/2), timeframe = 1\<rparr>,
                         \<lparr>idx = 20, cdf = Fin 1, timeframe = 2\<rparr>]\<rparr>
      [Fin (1/2)] [Fin (1/1000000000)] ! 0 = 3"
  using generate_beyond_cycle
    [of "[Fin (1/2)]" "[Fin (1/1000000000)]" 0
        "\<lparr>profile = [\<lparr>idx = 0, cdf = Fin (1/4), timeframe = 0\<rparr>,
                       \<lparr>idx = 10, cdf = Fin (1/2), timeframe = 1\<rparr>,
                       \<lparr>idx = 20, cdf = Fin 1, timeframe = 2\<rparr>]\<rparr>"]
  by (simp add: cdf_col_def)

lemma sorted_hd_le: "sorted (xs :: rat list) \<Longrightarrow> x \<in> set xs \<Longrightarrow> hd xs \<le> x"
  by (cases xs) auto

text \<open>
  C8 (as amended). generate does not validate the observations: for a batch with a
  negative entry it raises nothing and returns one wait-time per observation. On a
  table in the closed state and for a draw in [0, 1), a negative observation gets the
  wait-time 0.
\<close>

theorem generate_unvalidated:
  assumes "closed_cdf self" "length draw = length observations" "i < length observations"
    and "draw ! i = Fin r" "0 \<le> r" "r < 1"
    and "observations ! i = Fin ob" "ob < 0"
  shows "length (generate self draw observations) = length observations
       \<and> generate self draw observations ! i = 0"
proof -
  from assms(1) obtain qs where qs: "cdf_col self = map Fin qs" "qs \<noteq> []" "sorted qs"
      "0 \<le> hd qs" "last qs = 1"
    unfolding closed_cdf_rat by blast
  have nonneg: "0 \<le> q" if "q \<in> set qs" for q
    using sorted_hd_le [OF qs(3) that] qs(4) by simp
  have nth: "generate self draw observations ! i
               = searchsorted (cdf_col self) (fdiv (Fin r) (Fin ob))"
    using generate_nth [OF assms(2,3)] by (simp add: assms(4,7))
  have "r / ob \<le> 0" using assms(5,8) by (simp add: divide_nonneg_neg)
  then have "\<forall>c \<in> set (cdf_col self). \<not> np_less c (fdiv (Fin r) (Fin ob))"
    using assms(8) nonneg by (fastforce simp: qs(1))
  then have "generate self draw observations ! i = 0"
    by (simp add: nth searchsorted_none_below)
  then show ?thesis by (simp add: generate_length [OF assms(2)])
qed

theorem generate_unvalidated_witness:
  "generate \<lparr>profile = [\<lparr>idx = 0, cdf = Fin (1/4), timeframe = 0\<rparr>,
                         \<lparr>idx = 10, cdf = Fin (1/2), timeframe = 1\<rparr>,
                         \<lparr>idx = 20, cdf = Fin 1, timeframe = 2\<rparr>]\<rparr>
      [Fin (1/2), Fin (1/2)] [Fin 1, Fin (- 2)] = [1, 0]"
proof -
  let ?s = "\<lparr>profile = [\<lparr>idx = 0, cdf = Fin (1/4), timeframe = 0\<rparr>,
                       \<lparr>idx = 10, cdf = Fin (1/2), timeframe = 1\<rparr>,
                       \<lparr>idx = 20, cdf = Fin 1, timeframe = 2\<rparr>]\<rparr>"
  have c: "closed_cdf ?s"
    by (simp add: closed_cdf_def cdf_col_def index_col_def)
  from generate_unvalidated
    [OF c, of "[Fin (1/2), Fin (1/2)]" "[Fin 1, Fin (- 2)]" 1 "1/2" "- 2"]
  have "length (generate ?s [Fin (1/2), Fin (1/2)] [Fin 1, Fin (- 2)]) = 2"
    and "generate ?s [Fin (1/2), Fin (1/2)] [Fin 1, Fin (- 2)] ! 1 = 0" by simp_all
  moreover have "generate ?s [Fin (1/2), Fin (1/2)] [Fin 1, Fin (- 2)] ! 0 = 1"
    by (simp add: generate_def cdf_col_def searchsorted_def bisect_left.simps)
  ultimately show ?thesis
    by (cases "generate ?s [Fin (1/2), Fin (1/2)] [Fin 1, Fin (- 2)]";
        cases "tl (generate ?s [Fin (1/2), Fin (1/2)] [Fin 1, Fin (- 2)])") auto
qed

text \<open>
  A batch holding the observation -1: generate returns the wait-time 0 for it.
\<close>

theorem generate_negative_observation_counterexample:
  "generate \<lparr>profile = [\<lparr>idx = 0, cdf = Fin (1/2), timeframe = 0\<rparr>,
                         \<lparr>idx = 10, cdf = Fin 1, timeframe = 1\<rparr>]\<rparr>
      [Fin (1/2)] [Fin (- 1)] = [0]"
  by (simp add: generate_def cdf_col_def searchsorted_def bisect_left.simps)

section \<open>Properties of the clock\<close>

lemma Clock_increment_fields:
  "step_delta (fst (Clock_increment c)) = step_delta c"
  "step_s (fst (Clock_increment c)) = step_s c"
  "output_format (fst (Clock_increment c)) = output_format c"
  by (simp_all add: Clock_increment_def Let_def split: prod.splits sum.splits)

lemma Clock_increment_date:
  "current_date (fst (Clock_increment c)) =
     (if \<bar>step_delta c\<bar> \<le> Timestamp_max \<and> is_Timestamp (current_date c + step_delta c)
      then current_date c + step_delta c else current_date c)"
  by (simp add: Clock_increment_def Timestamp_add_def Let_def split: prod.splits)

lemma Clock_increment_raises:
  "\<not> is_Timestamp (current_date c + step_delta c) \<Longrightarrow> \<exists>e. Clock_increment c = (c, Some e)"
  by (simp add: Clock_increment_def Timestamp_add_def)

lemma call_fixed_fields:
  "step_delta (call c k) = step_delta c"
  "step_s (call c k) = step_s c"
  "output_format (call c k) = output_format c"
  by (cases k; simp add: Clock_increment_fields register_increment_listener_def)+

lemma call_current_date:
  "current_date (call c k) =
     (if k = Increment \<and> \<bar>step_delta c\<bar> \<le> Timestamp_max
         \<and> is_Timestamp (current_date c + step_delta c)
      then current_date c + step_delta c else current_date c)"
  by (cases k) (simp_all add: Clock_increment_date register_increment_listener_def)

lemma run_snoc: "run (calls @ [k]) c = call (run calls c) k"
  by (simp add: run_def)

lemma run_fixed_fields:
  "step_delta (run calls c) = step_delta c \<and> step_s (run calls c) = step_s c
   \<and> output_format (run calls c) = output_format c"
  by (induction calls rule: rev_induct) (simp_all add: run_snoc call_fixed_fields, simp add: run_def)

text \<open>The instants between two instants of the range are in the range.\<close>

lemma is_Timestamp_between:
  assumes "is_Timestamp t" "is_Timestamp (t + int m * d)" "j \<le> m"
  shows "is_Timestamp (t + int j * d)"
proof (cases "0 \<le> d")
  case True
  with assms(3) have "int j * d \<le> int m * d" by (simp add: mult_right_mono)
  moreover from True have "0 \<le> int j * d" by simp
  ultimately show ?thesis using assms(1,2) by (simp add: is_Timestamp_def)
next
  case False
  then have neg: "d \<le> 0" by simp
  with assms(3) have "int m * d \<le> int j * d" by (simp add: mult_right_mono_neg)
  moreover from neg have "int j * d \<le> 0" by (simp add: mult_nonneg_nonpos)
  ultimately show ?thesis using assms(1,2) by (simp add: is_Timestamp_def)
qed

lemma run_current_date:
  "\<bar>step_delta c\<bar> \<le> Timestamp_max \<Longrightarrow> is_Timestamp (current_date c) \<Longrightarrow>
   is_Timestamp (current_date c + int (count_list calls Increment) * step_delta c) \<Longrightarrow>
   current_date (run calls c) = current_date c + int (count_list calls Increment) * step_delta c"
proof (induction calls rule: rev_induct)
  case Nil
  then show ?case by (simp add: run_def)
next
  case (snoc k calls)
  let ?n = "count_list calls Increment"
  have "is_Timestamp (current_date c + int ?n * step_delta c)"
    by (rule is_Timestamp_between [OF snoc.prems(2,3)]) simp
  with snoc.IH snoc.prems(1,2)
  have ih: "current_date (run calls c) = current_date c + int ?n * step_delta c" by simp
  show ?case
  proof (cases "k = Increment")
    case True
    with snoc.prems(3)
    have in_range: "is_Timestamp (current_date (run calls c) + step_delta c)"
      by (simp add: ih algebra_simps)
    have "current_date (call (run calls c) k) = current_date (run calls c) + step_delta c"
      unfolding call_current_date using True snoc.prems(1) in_range
      by (simp add: run_fixed_fields)
    then show ?thesis using True
      by (simp only: run_snoc ih) (simp add: algebra_simps)
  next
    case False
    then show ?thesis by (simp add: run_snoc call_current_date ih)
  qed
qed

lemma Clock_init_fields:
  assumes "Clock_init start s fmt = Inr c0"
  shows "current_date c0 = start" "step_s c0 = s" "step_delta c0 = timedelta s"
    "output_format c0 = fmt" "increment_listeners c0 = []" "s \<noteq> 0"
  using assms by (auto simp: Clock_init_def split: if_splits)

text \<open>
  C2 (as amended). For a clock constructed at a Timestamp \<open>start\<close> with a step of \<open>s\<close>
  seconds that has a 64-bit count of nanoseconds: after any sequence of calls with \<open>n\<close>
  increment calls such that \<open>start + n * step\<close> is in the range of Timestamp, the current
  date is \<open>start + n * step\<close>; in particular after exactly \<open>n\<close> increments. An increment
  whose sum would leave the range of Timestamp raises and leaves the clock as it is. A
  call other than increment leaves the date as it is, and with a positive step no call
  makes it smaller.
\<close>

theorem clock_tick_arithmetic:
  assumes "Clock_init start s fmt = Inr c0" "is_Timestamp start"
    and "\<bar>timedelta s\<bar> \<le> Timestamp_max"
  shows "(is_Timestamp (start + int n * timedelta s) \<longrightarrow>
            current_date (run (replicate n Increment) c0) = start + int n * timedelta s)
       \<and> (is_Timestamp (start + int (count_list calls Increment) * timedelta s) \<longrightarrow>
            current_date (run calls c0) = start + int (count_list calls Increment) * timedelta s)
       \<and> (\<not> is_Timestamp (current_date (run calls c0) + timedelta s) \<longrightarrow>
            (\<exists>e. Clock_increment (run calls c0) = (run calls c0, Some e)))
       \<and> (k \<noteq> Increment \<longrightarrow> current_date (call (run calls c0) k) = current_date (run calls c0))
       \<and> (0 < s \<longrightarrow> current_date (run calls c0) \<le> current_date (call (run calls c0) k))"
proof -
  note f = Clock_init_fields [OF assms(1)]
  have a: "current_date (run cs c0) = start + int (count_list cs Increment) * timedelta s"
    if "is_Timestamp (start + int (count_list cs Increment) * timedelta s)" for cs
    using run_current_date [of c0 cs] that assms(2,3) by (simp add: f)
  have cnt: "count_list (replicate n Increment) Increment = n"
    by (induction n) simp_all
  have b: "is_Timestamp (start + int n * timedelta s) \<longrightarrow>
            current_date (run (replicate n Increment) c0) = start + int n * timedelta s"
    using a [of "replicate n Increment"] by (simp add: cnt)
  have r: "\<not> is_Timestamp (current_date (run calls c0) + timedelta s) \<longrightarrow>
            (\<exists>e. Clock_increment (run calls c0) = (run calls c0, Some e))"
    using Clock_increment_raises [of "run calls c0"] by (simp add: run_fixed_fields f)
  have c: "k \<noteq> Increment \<longrightarrow> current_date (call (run calls c0) k) = current_date (run calls c0)"
    by (simp add: call_current_date)
  have d: "0 < s \<longrightarrow> current_date (run calls c0) \<le> current_date (call (run calls c0) k)"
    by (simp add: call_current_date run_fixed_fields f timedelta_def)
  from a [of calls] b r c d show ?thesis by blast
qed

theorem clock_tick_arithmetic_witness:
  "Clock_init 1000 3600 ''%Y%m%d %H:%M:%S'' =
     Inr \<lparr>current_date = 1000, step_s = 3600, step_delta = 3600000000000,
          output_format = ''%Y%m%d %H:%M:%S'', ticks_per_day = 24, ticks_per_week = 168,
          increment_listeners = []\<rparr>
   \<and> current_date (run [Increment, GetTimestamp [5], Increment, Increment]
        \<lparr>current_date = 1000, step_s = 3600, step_delta = 3600000000000,
         output_format = ''%Y%m%d %H:%M:%S'', ticks_per_day = 24, ticks_per_week = 168,
         increment_listeners = []\<rparr>) = 10800000001000"
proof -
  let ?c = "\<lparr>current_date = 1000, step_s = 3600, step_delta = 3600000000000,
         output_format = ''%Y%m%d %H:%M:%S'', ticks_per_day = 24, ticks_per_week = 168,
         increment_listeners = []\<rparr>"
  have i: "Clock_init 1000 3600 ''%Y%m%d %H:%M:%S'' = Inr ?c"
    by (simp add: Clock_init_def timedelta_def)
  have t: "is_Timestamp 1000"
    by (simp add: is_Timestamp_def Timestamp_min_def Timestamp_max_def)
  have m: "\<bar>timedelta 3600\<bar> \<le> Timestamp_max"
    by (simp add: timedelta_def Timestamp_max_def)
  from clock_tick_arithmetic
    [OF i t m, of 0 "[Increment, GetTimestamp [5], Increment, Increment]" Increment]
  have "current_date (run [Increment, GetTimestamp [5], Increment, Increment] ?c) = 10800000001000"
    by (simp add: timedelta_def is_Timestamp_def Timestamp_min_def Timestamp_max_def)
  with i show ?thesis by simp
qed

text \<open>
  A clock constructed at 9223372036000000000 ns (a Timestamp in the year 2262) with a
  step of 3600 seconds: the first increment would pass the last Timestamp; it raises
  OutOfBoundsDatetime and the date is not \<open>start + 1 * step\<close> afterwards.
\<close>

theorem clock_out_of_bounds_counterexample:
  "Clock_init 9223372036000000000 3600 ''%Y%m%d %H:%M:%S'' =
     Inr \<lparr>current_date = 9223372036000000000, step_s = 3600, step_delta = 3600000000000,
          output_format = ''%Y%m%d %H:%M:%S'', ticks_per_day = 24, ticks_per_week = 168,
          increment_listeners = []\<rparr>
   \<and> Clock_increment
        \<lparr>current_date = 9223372036000000000, step_s = 3600, step_delta = 3600000000000,
         output_format = ''%Y%m%d %H:%M:%S'', ticks_per_day = 24, ticks_per_week = 168,
         increment_listeners = []\<rparr>
     = (\<lparr>current_date = 9223372036000000000, step_s = 3600, step_delta = 3600000000000,
         output_format = ''%Y%m%d %H:%M:%S'', ticks_per_day = 24, ticks_per_week = 168,
         increment_listeners = []\<rparr>, Some OutOfBoundsDatetime)
   \<and> current_date (run (replicate 1 Increment)
        \<lparr>current_date = 9223372036000000000, step_s = 3600, step_delta = 3600000000000,
         output_format = ''%Y%m%d %H:%M:%S'', ticks_per_day = 24, ticks_per_week = 168,
         increment_listeners = []\<rparr>)
     \<noteq> 9223372036000000000 + 1 * timedelta 3600"
  by (simp add: Clock_init_def timedelta_def run_def Clock_increment_def Timestamp_add_def
      is_Timestamp_def Timestamp_min_def Timestamp_max_def)



section \<open>Construction from a profile of total weight zero\<close>

lemma fadd_not_fin: "\<not> is_fin b \<Longrightarrow> \<not> is_fin (fadd a b)"
  by (cases a; cases b) simp_all

lemma fsub_not_fin: "\<not> is_fin b \<Longrightarrow> \<not> is_fin (fsub a b)"
  by (cases a; cases b) (simp_all add: fsub_def)

lemma fdiv_zero_not_fin: "\<not> is_fin (fdiv (Fin q) (Fin 0))"
  by simp

lemma length_pd_cumsum_from [simp]: "length (pd_cumsum_from a xs) = length xs"
  by (induction xs arbitrary: a) simp_all

lemma length_profile_cdf [simp]: "length (profile_cdf ws) = length ws"
  by (simp add: profile_cdf_def pd_cumsum_def)

lemma pd_cumsum_from_not_fin:
  "list_all (\<lambda>x. \<not> is_fin x) xs \<Longrightarrow> list_all (\<lambda>c. \<not> is_fin c) (pd_cumsum_from a xs)"
  by (induction xs arbitrary: a) (simp_all add: fadd_not_fin)

lemma profile_cdf_zero_total:
  assumes "list_all is_fin ws" "pd_sum ws = Fin 0"
  shows "list_all (\<lambda>c. \<not> is_fin c) (profile_cdf ws)"
proof -
  from all_fin_map_Fin [OF assms(1)] obtain qs where "ws = map Fin qs" by blast
  moreover have "map (\<lambda>w. fdiv w (pd_sum ws)) ws = map (\<lambda>w. fdiv w (Fin 0)) ws"
    by (simp only: assms(2))
  ultimately have "map (\<lambda>w. fdiv w (pd_sum ws)) ws = map (\<lambda>q. fdiv (Fin q) (Fin 0)) qs"
    by (simp add: o_def)
  then have "list_all (\<lambda>x. \<not> is_fin x) (map (\<lambda>w. fdiv w (pd_sum ws)) ws)"
    by (simp only: list_all_iff) auto
  then show ?thesis
    unfolding profile_cdf_def pd_cumsum_def by (rule pd_cumsum_from_not_fin)
qed

lemma cdf_table_cols:
  "cdf_col (cdf_table ser) = profile_cdf (map snd ser)"
  "index_col (cdf_table ser) = map fst ser"
  "timeframe_col (cdf_table ser) = [0..<length ser]"
proof -
  let ?z = "zip [0..<length ser] (zip (map fst ser) (profile_cdf (map snd ser)))"
  have c: "cdf \<circ> (\<lambda>(k, t, c). \<lparr>idx = t, cdf = c, timeframe = k\<rparr>) = snd \<circ> snd"
    and i: "idx \<circ> (\<lambda>(k, t, c). \<lparr>idx = t, cdf = c, timeframe = k\<rparr>) = fst \<circ> snd"
    and t: "timeframe \<circ> (\<lambda>(k, t, c). \<lparr>idx = t, cdf = c, timeframe = k\<rparr>) = fst"
    by (auto simp: fun_eq_iff)
  have s: "map snd ?z = zip (map fst ser) (profile_cdf (map snd ser))"
    by (rule map_snd_zip) simp
  have "cdf_col (cdf_table ser) = map (snd \<circ> snd) ?z"
    by (simp only: cdf_col_def cdf_table_def CyclicTimerGenerator.simps map_map c)
  also have "\<dots> = map snd (map snd ?z)" by (simp only: map_map)
  also have "\<dots> = profile_cdf (map snd ser)" unfolding s by (rule map_snd_zip) simp
  finally show "cdf_col (cdf_table ser) = profile_cdf (map snd ser)" .
  have "index_col (cdf_table ser) = map (fst \<circ> snd) ?z"
    by (simp only: index_col_def cdf_table_def CyclicTimerGenerator.simps map_map i)
  also have "\<dots> = map fst (map snd ?z)" by (simp only: map_map)
  also have "\<dots> = map fst ser" unfolding s by (rule map_fst_zip) simp
  finally show "index_col (cdf_table ser) = map fst ser" .
  have "timeframe_col (cdf_table ser) = map fst ?z"
    by (simp only: timeframe_col_def cdf_table_def CyclicTimerGenerator.simps map_map t)
  also have "\<dots> = [0..<length ser]" by (rule map_fst_zip) simp
  finally show "timeframe_col (cdf_table ser) = [0..<length ser]" .
qed

lemma increment_index_col:
  "increment g = Inr g' \<Longrightarrow> index_col g' = rotate1 (index_col g)"
  by (cases "profile g") (auto simp: increment_def Let_def index_col_def)

lemma increment_degenerate:
  assumes "degenerate g" "increment g = Inr g'"
  shows "degenerate g'"
proof -
  from assms(1) obtain r0 rs where p: "profile g = r0 # rs"
    by (cases "profile g") (auto simp: degenerate_def)
  have d: "distinct (map idx (r0 # rs))"
    using assms(1) p by (simp add: degenerate_def index_col_def)
  from increment_distinct [OF p d] assms(2)
  have g': "profile g' = map (\<lambda>r. r\<lparr>cdf := fsub (cdf r) (cdf r0)\<rparr>) rs @ [r0\<lparr>cdf := Fin 1\<rparr>]"
    by auto
  have nf: "\<not> is_fin (cdf r0)" if "rs \<noteq> []"
    using assms(1) p that by (simp add: degenerate_def cdf_col_def)
  have "list_all (\<lambda>c. \<not> is_fin c) (map (\<lambda>r. fsub (cdf r) (cdf r0)) rs)"
    using nf by (cases rs) (simp_all add: list_all_iff fsub_not_fin)
  moreover have "butlast (cdf_col g') = map (\<lambda>r. fsub (cdf r) (cdf r0)) rs"
    by (simp add: cdf_col_def g' butlast_append o_def)
  moreover have "last (cdf_col g') = Fin 1" by (simp add: cdf_col_def g')
  moreover have "distinct (index_col g')"
    using d increment_index_col [OF assms(2)] p by (simp add: index_col_def)
  ultimately show ?thesis by (simp add: degenerate_def g')
qed

lemma increment_nonempty:
  "profile g \<noteq> [] \<Longrightarrow> \<exists>g'. increment g = Inr g' \<and> length (profile g') = length (profile g)"
  by (cases "profile g") (auto simp: increment_def Let_def)

text \<open>The alignment loop ends as soon as a row label is not before the clock's date.\<close>

lemma align_ends:
  assumes step: "\<And>g g'. P g \<Longrightarrow> increment g = Inr g' \<Longrightarrow> P g'"
  shows "P g \<Longrightarrow> \<exists>l \<in> set (index_col g). now \<le> l \<Longrightarrow>
         \<exists>g'. align now g = Some (Inr g') \<and> P g' \<and> length (profile g') = length (profile g)"
proof (induction "length (takeWhile (\<lambda>l. l < now) (index_col g))" arbitrary: g)
  case 0
  from "0.prems"(2) obtain r0 rs where p: "profile g = r0 # rs"
    by (cases "profile g") (auto simp: index_col_def)
  with "0.hyps" have "\<not> idx r0 < now" by (auto simp: index_col_def split: if_splits)
  then have "align now g = Some (Inr g)" using p by (subst align.simps) simp
  with "0.prems"(1) show ?case by simp
next
  case (Suc m)
  from Suc.prems(2) obtain r0 rs where p: "profile g = r0 # rs"
    by (cases "profile g") (auto simp: index_col_def)
  with Suc.hyps(2) have lt: "idx r0 < now" by (auto simp: index_col_def split: if_splits)
  from increment_nonempty [of g] p obtain g1 where
    g1: "increment g = Inr g1" "length (profile g1) = length (profile g)" by auto
  have i1: "index_col g1 = map idx rs @ [idx r0]"
    using increment_index_col [OF g1(1)] p by (simp add: index_col_def)
  from Suc.prems(2) lt p obtain l where l: "l \<in> set (map idx rs)" "now \<le> l"
    by (auto simp: index_col_def)
  then have tw: "takeWhile (\<lambda>l. l < now) (index_col g1) = takeWhile (\<lambda>l. l < now) (map idx rs)"
    unfolding i1 by (intro takeWhile_append1 [of l]) auto
  have "m = length (takeWhile (\<lambda>l. l < now) (index_col g1))"
    unfolding tw using Suc.hyps(2) p lt by (simp add: index_col_def)
  moreover have "P g1" using step Suc.prems(1) g1(1) by blast
  moreover have "\<exists>l \<in> set (index_col g1). now \<le> l" using l by (auto simp: i1)
  ultimately obtain g' where
    g': "align now g1 = Some (Inr g')" "P g'" "length (profile g') = length (profile g1)"
    using Suc.hyps(1) by blast
  have "align now g = Some (Inr g')"
    using p lt g1(1) g'(1) by (subst align.simps) simp
  with g' g1(2) show ?case by simp
qed

lemma cdf_table_degenerate:
  assumes "ser \<noteq> []" "distinct (map fst ser)" "list_all is_fin (map snd ser)"
    and "pd_sum (map snd ser) = Fin 0"
  shows "degenerate (cdf_table ser)" "list_all (\<lambda>c. \<not> is_fin c) (cdf_col (cdf_table ser))"
proof -
  have nf: "list_all (\<lambda>c. \<not> is_fin c) (profile_cdf (map snd ser))"
    by (rule profile_cdf_zero_total [OF assms(3,4)])
  then show all: "list_all (\<lambda>c. \<not> is_fin c) (cdf_col (cdf_table ser))"
    by (simp add: cdf_table_cols)
  have ne: "cdf_col (cdf_table ser) \<noteq> []"
    using assms(1) by (auto simp: cdf_table_cols dest: arg_cong [where f = length])
  then have "profile (cdf_table ser) \<noteq> []" by (auto simp: cdf_col_def)
  moreover have "list_all (\<lambda>c. \<not> is_fin c) (butlast (cdf_col (cdf_table ser)))"
    using all by (auto simp: list_all_iff dest: in_set_butlastD)
  moreover have "\<not> is_fin (last (cdf_col (cdf_table ser)))"
    using all ne by (simp add: list_all_iff)
  ultimately show "degenerate (cdf_table ser)"
    using assms(2) by (simp add: degenerate_def cdf_table_cols)
qed

text \<open>
  C7 (as amended). When the weights of the profile, as resampled to clock steps, are
  finite and sum to zero, the construction of a CyclicTimerGenerator raises no
  configuration error. With row labels that are all different and one of them not
  before the clock's date (so that the alignment loop ends), it returns a generator,
  registered with the clock, whose table has one row per resampled weight and no finite
  cumulative probability: each is NaN or an infinity, except that the last row holds the
  1 written by a rotation when alignment rotated the table. When the first label is
  not before the clock's date there is no rotation and every cumulative value is NaN or
  an infinity.
\<close>

theorem init_zero_total:
  assumes "Timedelta pd (profile_time_steps config) = Some step"
    and "latest_date_before (start_date config) (current_date clock)
           (step * int (length (weights config))) = Some init_date"
    and "ser = profile_ser pd clock config step init_date"
    and "ser \<noteq> []" "distinct (map fst ser)"
    and "list_all is_fin (map snd ser)" "pd_sum (map snd ser) = Fin 0"
    and "\<exists>l \<in> set (map fst ser). current_date clock \<le> l"
  shows "\<exists>self. CyclicTimerGenerator_init pd clock config
                  = Some (Inr (self, register_increment_listener self clock))
           \<and> length (profile self) = length ser
           \<and> list_all (\<lambda>c. \<not> is_fin c) (butlast (cdf_col self))
           \<and> (last (cdf_col self) = Fin 1 \<or> \<not> is_fin (last (cdf_col self)))
           \<and> (current_date clock \<le> fst (hd ser) \<longrightarrow>
                 self = cdf_table ser \<and> list_all (\<lambda>c. \<not> is_fin c) (cdf_col self))"
proof -
  note d = cdf_table_degenerate [OF assms(4-7)]
  have l: "\<exists>l \<in> set (index_col (cdf_table ser)). current_date clock \<le> l"
    using assms(8) by (simp add: cdf_table_cols)
  have "\<exists>g. align (current_date clock) (cdf_table ser) = Some (Inr g) \<and> degenerate g
          \<and> length (profile g) = length (profile (cdf_table ser))"
  proof (rule align_ends [where P = degenerate])
    show "\<And>g g'. degenerate g \<Longrightarrow> increment g = Inr g' \<Longrightarrow> degenerate g'"
      by (rule increment_degenerate)
  qed (rule d(1), rule l)
  then obtain self where
    s: "align (current_date clock) (cdf_table ser) = Some (Inr self)" "degenerate self"
       "length (profile self) = length (profile (cdf_table ser))" by blast
  have len: "length (profile (cdf_table ser)) = length ser"
    using cdf_table_cols(2) [of ser] by (auto simp: index_col_def dest: arg_cong [where f = length])
  have init: "CyclicTimerGenerator_init pd clock config
                = Some (Inr (self, register_increment_listener self clock))"
    using assms(1,2) s(1) by (simp add: CyclicTimerGenerator_init_def assms(3) [symmetric])
  have aligned: "self = cdf_table ser \<and> list_all (\<lambda>c. \<not> is_fin c) (cdf_col self)"
    if "current_date clock \<le> fst (hd ser)"
  proof -
    from assms(4) obtain r0 rs where p: "profile (cdf_table ser) = r0 # rs"
      using len by (cases "profile (cdf_table ser)") auto
    have "idx r0 = fst (hd ser)"
      using cdf_table_cols(2) [of ser] p assms(4) by (cases ser) (auto simp: index_col_def)
    with that have "align (current_date clock) (cdf_table ser) = Some (Inr (cdf_table ser))"
      using p by (subst align.simps) simp
    with s(1) d(2) show ?thesis by simp
  qed
  from init s(2,3) len aligned show ?thesis
    by (auto simp: degenerate_def)
qed


theorem init_zero_total_witness:
  "\<exists>self. CyclicTimerGenerator_init pd_example
       \<lparr>current_date = 3600000000000, step_s = 3600, step_delta = 3600000000000,
        output_format = ''%Y%m%d %H:%M:%S'', ticks_per_day = 24, ticks_per_week = 168,
        increment_listeners = []\<rparr>
       \<lparr>start_date = 0, weights = [Fin 1, Fin (- 1)], profile_time_steps = ''1h''\<rparr>
     = Some (Inr (self, register_increment_listener self
          \<lparr>current_date = 3600000000000, step_s = 3600, step_delta = 3600000000000,
           output_format = ''%Y%m%d %H:%M:%S'', ticks_per_day = 24, ticks_per_week = 168,
           increment_listeners = []\<rparr>))
     \<and> length (profile self) = 2
     \<and> cdf_col self = [NaN, Fin 1]"
proof -
  let ?clock = "\<lparr>current_date = 3600000000000, step_s = 3600, step_delta = 3600000000000,
        output_format = ''%Y%m%d %H:%M:%S'', ticks_per_day = 24, ticks_per_week = 168,
        increment_listeners = []\<rparr>"
  let ?config = "\<lparr>start_date = 0, weights = [Fin 1, Fin (- 1)], profile_time_steps = ''1h''\<rparr>"
  let ?ser = "profile_ser pd_example ?clock ?config 3600000000000 0"
  have ser: "?ser = [(0, Fin 1), (3600000000000, Fin (- 1))]" by code_simp
  have h1: "Timedelta pd_example (profile_time_steps ?config) = Some 3600000000000"
    by (simp add: pd_example_def)
  have h2: "latest_date_before (start_date ?config) (current_date ?clock)
              (3600000000000 * int (length (weights ?config))) = Some 0"
    by (simp add: latest_date_before.simps)
  have h4: "?ser \<noteq> []" and h5: "distinct (map fst ?ser)"
    and h6: "list_all is_fin (map snd ?ser)" and h7: "pd_sum (map snd ?ser) = Fin 0"
    and h8: "\<exists>l \<in> set (map fst ?ser). current_date ?clock \<le> l"
    unfolding ser by (simp_all add: pd_sum_def)
  from init_zero_total [OF h1 h2 refl h4 h5 h6 h7 h8] obtain self where
    s: "CyclicTimerGenerator_init pd_example ?clock ?config
          = Some (Inr (self, register_increment_listener self ?clock))"
       "length (profile self) = length ?ser" by blast
  have "CyclicTimerGenerator_init pd_example ?clock ?config
          = Some (Inr (\<lparr>profile = [\<lparr>idx = 3600000000000, cdf = NaN, timeframe = 1\<rparr>,
                                   \<lparr>idx = 0, cdf = Fin 1, timeframe = 0\<rparr>]\<rparr>,
               register_increment_listener
                 \<lparr>profile = [\<lparr>idx = 3600000000000, cdf = NaN, timeframe = 1\<rparr>,
                              \<lparr>idx = 0, cdf = Fin 1, timeframe = 0\<rparr>]\<rparr> ?clock))"
    by code_simp
  with s(1) have "self = \<lparr>profile = [\<lparr>idx = 3600000000000, cdf = NaN, timeframe = 1\<rparr>,
                                     \<lparr>idx = 0, cdf = Fin 1, timeframe = 0\<rparr>]\<rparr>" by simp
  then have "cdf_col self = [NaN, Fin 1]" by (simp add: cdf_col_def)
  moreover have "length (profile self) = 2" using s(2) by (simp add: ser)
  ultimately show ?thesis using s(1) by blast
qed

text \<open>
  A profile of two phases of one hour with the weights 0 and 0, on a clock of hourly
  steps that stands at the anchor date: the constructor returns a generator whose
  cumulative probabilities are NaN, and registers it with the clock.
\<close>

theorem init_zero_weights_counterexample:
  "Clock_init 0 3600 ''%Y%m%d %H:%M:%S'' =
     Inr \<lparr>current_date = 0, step_s = 3600, step_delta = 3600000000000,
          output_format = ''%Y%m%d %H:%M:%S'', ticks_per_day = 24, ticks_per_week = 168,
          increment_listeners = []\<rparr>
   \<and> CyclicTimerGenerator_init pd_example
       \<lparr>current_date = 0, step_s = 3600, step_delta = 3600000000000,
        output_format = ''%Y%m%d %H:%M:%S'', ticks_per_day = 24, ticks_per_week = 168,
        increment_listeners = []\<rparr>
       \<lparr>start_date = 0, weights = [Fin 0, Fin 0], profile_time_steps = ''1h''\<rparr>
     = Some (Inr (\<lparr>profile = [\<lparr>idx = 0, cdf = NaN, timeframe = 0\<rparr>,
                              \<lparr>idx = 3600000000000, cdf = NaN, timeframe = 1\<rparr>]\<rparr>,
       \<lparr>current_date = 0, step_s = 3600, step_delta = 3600000000000,
        output_format = ''%Y%m%d %H:%M:%S'', ticks_per_day = 24, ticks_per_week = 168,
        increment_listeners = [\<lparr>profile = [\<lparr>idx = 0, cdf = NaN, timeframe = 0\<rparr>,
                              \<lparr>idx = 3600000000000, cdf = NaN, timeframe = 1\<rparr>]\<rparr>]\<rparr>))"
  by code_simp

section \<open>Construction from a profile of positive total weight\<close>

lemma latest_date_before_total:
  assumes "0 < time_step"
  shows "\<exists>d. latest_date_before s u time_step = Some d \<and> s \<le> d
           \<and> (s \<le> u \<longrightarrow> d \<le> u \<and> u < d + time_step) \<and> (u < s \<longrightarrow> d = s)"
proof (induction "nat (u - s)" arbitrary: s rule: less_induct)
  case less
  show ?case
  proof (cases "s + time_step \<le> u")
    case True
    with assms have "nat (u - (s + time_step)) < nat (u - s)" by simp
    from less [OF this] obtain d where
      d: "latest_date_before (s + time_step) u time_step = Some d" "s + time_step \<le> d"
         "s + time_step \<le> u \<longrightarrow> d \<le> u \<and> u < d + time_step" by blast
    have "latest_date_before s u time_step = Some d"
      using True d(1) by (subst latest_date_before.simps) simp
    with d True assms show ?thesis by auto
  next
    case False
    then have "latest_date_before s u time_step = Some s"
      by (subst latest_date_before.simps) simp
    with False show ?thesis by auto
  qed
qed

lemma pd_cumsum_from_Fin:
  "pd_cumsum_from (Fin a) (map Fin xs) = map Fin (cumsum_from a xs)"
  by (induction xs arbitrary: a) simp_all

lemma foldl_fadd_Fin: "foldl fadd (Fin a) (map Fin xs) = Fin (a + sum_list xs)"
  by (induction xs arbitrary: a) (simp_all add: algebra_simps)

lemma pd_sum_Fin: "pd_sum (map Fin xs) = Fin (sum_list xs)"
proof -
  have "filter (\<lambda>x. x \<noteq> NaN) (map Fin xs) = map Fin xs"
    by (induction xs) simp_all
  then show ?thesis by (simp add: pd_sum_def foldl_fadd_Fin)
qed

lemma profile_cdf_Fin:
  assumes "sum_list qs \<noteq> 0"
  shows "profile_cdf (map Fin qs) = map Fin (cumsum_from 0 (map (\<lambda>q. q / sum_list qs) qs))"
proof -
  have "map (\<lambda>w. fdiv w (Fin (sum_list qs))) (map Fin qs) = map Fin (map (\<lambda>q. q / sum_list qs) qs)"
    using assms by simp
  then show ?thesis
    by (simp only: profile_cdf_def pd_sum_Fin pd_cumsum_def pd_cumsum_from_Fin)
qed

lemma cumsum_from_ge: "\<forall>x \<in> set xs. 0 \<le> x \<Longrightarrow> c \<in> set (cumsum_from a xs) \<Longrightarrow> a \<le> c"
proof (induction xs arbitrary: a)
  case Nil
  then show ?case by simp
next
  case (Cons x xs)
  from Cons.prems(2) have "c = a + x \<or> c \<in> set (cumsum_from (a + x) xs)" by simp
  then show ?case
  proof
    assume "c = a + x"
    with Cons.prems(1) show ?thesis by simp
  next
    assume "c \<in> set (cumsum_from (a + x) xs)"
    with Cons.IH [of "a + x"] Cons.prems(1) have "a + x \<le> c" by simp
    with Cons.prems(1) show ?thesis by simp
  qed
qed

lemma cumsum_from_sorted: "\<forall>x \<in> set xs. 0 \<le> x \<Longrightarrow> sorted (cumsum_from a xs)"
proof (induction xs arbitrary: a)
  case Nil
  then show ?case by simp
next
  case (Cons x xs)
  then show ?case using cumsum_from_ge [of xs _ "a + x"] by auto
qed

lemma cumsum_from_last: "xs \<noteq> [] \<Longrightarrow> last (cumsum_from a xs) = a + sum_list xs"
proof (induction xs arbitrary: a)
  case Nil
  then show ?case by simp
next
  case (Cons x xs)
  then show ?case by (cases xs) (simp_all add: algebra_simps)
qed

lemma sum_list_scaled: "sum_list (map (\<lambda>q. q / c) qs) = sum_list qs / (c :: rat)"
  by (induction qs) (simp_all add: add_divide_distrib)

lemma cdf_table_closed:
  assumes "qs \<noteq> []" "length ls = length qs" "distinct ls" "\<forall>q \<in> set qs. 0 \<le> q" "0 < sum_list qs"
  shows "closed_cdf (cdf_table (zip ls (map Fin qs)))"
proof -
  let ?ser = "zip ls (map Fin qs)"
  let ?ns = "map (\<lambda>q. q / sum_list qs) qs"
  have f: "map fst ?ser = ls" and s: "map snd ?ser = map Fin qs"
    using assms(2) by simp_all
  have c: "cdf_col (cdf_table ?ser) = map Fin (cumsum_from 0 ?ns)"
    using assms(5) by (simp only: cdf_table_cols s) (simp add: profile_cdf_Fin)
  have nn: "\<forall>x \<in> set ?ns. 0 \<le> x" using assms(4,5) by simp
  have ne: "?ns \<noteq> []" using assms(1) by simp
  have "sum_list ?ns = sum_list qs / sum_list qs"
    by (rule sum_list_scaled)
  then have one: "sum_list ?ns = 1" using assms(5) by simp
  have "sorted (cumsum_from 0 ?ns)" by (rule cumsum_from_sorted [OF nn])
  moreover have "0 \<le> hd (cumsum_from 0 ?ns)"
    using cumsum_from_ge [OF nn, of "hd (cumsum_from 0 ?ns)" 0] ne
    by (cases qs) simp_all
  moreover have "last (cumsum_from 0 ?ns) = 1"
    using cumsum_from_last [OF ne, of 0] one by simp
  moreover have "cumsum_from 0 ?ns \<noteq> []" using assms(1) by (cases qs) simp_all
  ultimately show ?thesis
    unfolding closed_cdf_rat using c assms(3) by (auto simp: cdf_table_cols f)
qed

lemma increment_keeps_closed:
  assumes "closed_cdf self" "increment self = Inr g"
  shows "closed_cdf g"
proof -
  from assms(1) obtain qs where qs: "cdf_col self = map Fin qs" "qs \<noteq> []" "sorted qs"
      "0 \<le> hd qs" "last qs = 1" and d: "distinct (index_col self)"
    unfolding closed_cdf_rat by blast
  have ne: "profile self \<noteq> []" using qs(1,2) by (auto simp: cdf_col_def)
  from increment_cdf_col [OF ne d qs(1)] assms(2) have
    g: "cdf_col g = map Fin (rebase qs)" "index_col g = rotate1 (index_col self)" by auto
  from rebase_sorted [OF qs(2-5)] have
    r: "sorted (rebase qs)" "0 \<le> hd (rebase qs)" "last (rebase qs) = 1" by blast+
  have rne: "rebase qs \<noteq> []" by (simp add: rebase_def)
  show ?thesis
    unfolding closed_cdf_rat using g r rne d by auto
qed

text \<open>
  The constructor establishes the closed state: from resampled weights that are finite
  and non-negative with a positive total, under distinct row labels of which one is not
  before the clock's date, it returns a generator in the closed state.
\<close>

lemma init_closed:
  assumes "Timedelta pd (profile_time_steps config) = Some step"
    and "latest_date_before (start_date config) (current_date clock)
           (step * int (length (weights config))) = Some init_date"
    and "profile_ser pd clock config step init_date = zip ls (map Fin qs)"
    and "qs \<noteq> []" "length ls = length qs" "distinct ls"
    and "\<forall>q \<in> set qs. 0 \<le> q" "0 < sum_list qs"
    and "\<exists>l \<in> set ls. current_date clock \<le> l"
  shows "\<exists>self. CyclicTimerGenerator_init pd clock config
                  = Some (Inr (self, register_increment_listener self clock))
           \<and> closed_cdf self \<and> length (profile self) = length qs"
proof -
  let ?ser = "zip ls (map Fin qs)"
  have c: "closed_cdf (cdf_table ?ser)"
    by (rule cdf_table_closed [OF assms(4-8)])
  have i: "index_col (cdf_table ?ser) = ls"
    using assms(5) by (simp add: cdf_table_cols)
  have l: "\<exists>l \<in> set (index_col (cdf_table ?ser)). current_date clock \<le> l"
    using assms(9) by (simp only: i)
  have "\<exists>g. align (current_date clock) (cdf_table ?ser) = Some (Inr g) \<and> closed_cdf g
          \<and> length (profile g) = length (profile (cdf_table ?ser))"
  proof (rule align_ends [where P = closed_cdf])
    show "\<And>g g'. closed_cdf g \<Longrightarrow> increment g = Inr g' \<Longrightarrow> closed_cdf g'"
      by (rule increment_keeps_closed)
  qed (rule c, rule l)
  then obtain self where
    s: "align (current_date clock) (cdf_table ?ser) = Some (Inr self)" "closed_cdf self"
       "length (profile self) = length (profile (cdf_table ?ser))" by blast
  have "length (profile (cdf_table ?ser)) = length qs"
    using i assms(5) by (auto simp: index_col_def dest: arg_cong [where f = length])
  moreover have "CyclicTimerGenerator_init pd clock config
                = Some (Inr (self, register_increment_listener self clock))"
    using assms(1,2) s(1) by (simp add: CyclicTimerGenerator_init_def assms(3))
  ultimately show ?thesis using s(2,3) by auto
qed

end
